theory Spec2Isabelle
  imports Main
begin

text \<open>
  VerbaVox sends audio files to a language model for a transcript, a translation and a list
  of key quotes, and exports them as a document.  This theory embeds the local code of the
  application: the SRT text filter, the choice of the translation request, the state of
  one file with its translate and quote-extraction actions, the queue of selected files,
  and the grouping and naming of the document export.
\<close>

section \<open>JavaScript strings\<close>

text \<open>
  A JavaScript string is a sequence of UTF-16 code units; a code unit is modelled by its
  number.  \<open>js\<close> embeds an ASCII literal.
\<close>

type_synonym jsstring = "nat list"

definition js :: "string \<Rightarrow> jsstring" where
  "js s = map of_char s"

abbreviation LF :: nat where "LF \<equiv> 10"
abbreviation CR :: nat where "CR \<equiv> 13"

text \<open>
  The characters removed by \<^verbatim>\<open>String.prototype.trim\<close> and matched by \<^verbatim>\<open>\s\<close>:
  ECMAScript WhiteSpace (TAB, VT, FF, ZWNBSP and the space separators) and LineTerminator
  (LF, CR, LS, PS).
\<close>

definition isWhiteSpace :: "nat \<Rightarrow> bool" where
  "isWhiteSpace c \<longleftrightarrow>
     c \<in> set [9, 10, 11, 12, 13, 32, 160, 5760, 8232, 8233, 8239, 8287, 12288, 65279]
     \<or> (8192 \<le> c \<and> c \<le> 8202)"

text \<open>\<^verbatim>\<open>\d\<close> is \<^verbatim>\<open>[0-9]\<close>.\<close>

definition isDigit :: "nat \<Rightarrow> bool" where
  "isDigit c \<longleftrightarrow> 48 \<le> c \<and> c \<le> 57"

definition trim :: "jsstring \<Rightarrow> jsstring" where
  "trim s = rev (dropWhile isWhiteSpace (rev (dropWhile isWhiteSpace s)))"

fun startsWith :: "jsstring \<Rightarrow> jsstring \<Rightarrow> bool" where
  "startsWith s [] = True"
| "startsWith [] (p # ps) = False"
| "startsWith (c # cs) (p # ps) = (c = p \<and> startsWith cs ps)"

text \<open>\<^verbatim>\<open>s.includes(p)\<close>: \<open>p\<close> occurs in \<open>s\<close> at some position.\<close>

fun includesStr :: "jsstring \<Rightarrow> jsstring \<Rightarrow> bool" where
  "includesStr [] p = (p = [])"
| "includesStr (c # cs) p = (startsWith (c # cs) p \<or> includesStr cs p)"

text \<open>
  \<^verbatim>\<open>s.split(/\r?\n/)\<close>: the text is cut at every LF, and a CR directly before that LF
  belongs to the separator.  The empty string gives one empty line.
\<close>

fun splitLines :: "jsstring \<Rightarrow> jsstring list" where
  "splitLines [] = [[]]"
| "splitLines (c # cs) =
     (if c = LF then [] # splitLines cs
      else if c = CR \<and> cs \<noteq> [] \<and> hd cs = LF then [] # splitLines (tl cs)
      else (case splitLines cs of
              [] \<Rightarrow> [[c]]
            | l # ls \<Rightarrow> (c # l) # ls))"

text \<open>\<^verbatim>\<open>s.split(sep)\<close> for a separator of one code unit.\<close>

fun splitOn :: "nat \<Rightarrow> jsstring \<Rightarrow> jsstring list" where
  "splitOn sep [] = [[]]"
| "splitOn sep (c # cs) =
     (if c = sep then [] # splitOn sep cs
      else (case splitOn sep cs of
              [] \<Rightarrow> [[c]]
            | l # ls \<Rightarrow> (c # l) # ls))"

text \<open>\<^verbatim>\<open>parts.join(sep)\<close>.\<close>

fun joinWith :: "jsstring \<Rightarrow> jsstring list \<Rightarrow> jsstring" where
  "joinWith sep [] = []"
| "joinWith sep [l] = l"
| "joinWith sep (l # l' # ls) = l @ sep @ joinWith sep (l' # ls)"

section \<open>The SRT text filter\<close>

text \<open>
  \<^verbatim>\<open>stripSrtTimecodes\<close> of \<^verbatim>\<open>components/FileProcessor.tsx\<close> and of
  \<^verbatim>\<open>utils/docxGenerator.ts\<close>: the two copies are the same text.  The three tests of the
  filter callback are named as in the source.
\<close>

definition isTimecode :: "jsstring \<Rightarrow> bool" where
  "isTimecode line = includesStr line (js ''-->'')"

text \<open>\<^verbatim>\<open>/^\d+$/.test(line.trim())\<close>\<close>

definition isCounter :: "jsstring \<Rightarrow> bool" where
  "isCounter line = (trim line \<noteq> [] \<and> list_all isDigit (trim line))"

definition keepLine :: "jsstring \<Rightarrow> bool" where
  "keepLine line = (\<not> isTimecode line \<and> \<not> isCounter line \<and> trim line \<noteq> [])"

definition stripSrtTimecodes :: "jsstring \<Rightarrow> jsstring" where
  "stripSrtTimecodes srtText =
     (if srtText = [] then []
      else (let lines = splitLines srtText;
                textLines = filter keepLine lines
            in joinWith [LF] textLines))"

section \<open>The timecode test of the translation request\<close>

text \<open>
  \<^verbatim>\<open>hasSrtTimecodes\<close> of \<^verbatim>\<open>services/geminiService.ts\<close> tests the regular expression
  \<^verbatim>\<open>/\d{2}:\d{2}:\d{2},\d{3}\s*-->\s*\d{2}:\d{2}:\d{2},\d{3}/\<close> anywhere in the text.
  Each piece of the expression is a matcher that returns the rest of the input.
\<close>

fun matchDigits :: "nat \<Rightarrow> jsstring \<Rightarrow> jsstring option" where
  "matchDigits 0 s = Some s"
| "matchDigits (Suc n) [] = None"
| "matchDigits (Suc n) (c # cs) = (if isDigit c then matchDigits n cs else None)"

fun matchChar :: "nat \<Rightarrow> jsstring \<Rightarrow> jsstring option" where
  "matchChar ch [] = None"
| "matchChar ch (c # cs) = (if c = ch then Some cs else None)"

text \<open>\<^verbatim>\<open>\d{2}:\d{2}:\d{2},\d{3}\<close>\<close>

definition matchTimestamp :: "jsstring \<Rightarrow> jsstring option" where
  "matchTimestamp s =
     Option.bind (matchDigits 2 s) (\<lambda>s1.
     Option.bind (matchChar 58 s1) (\<lambda>s2.
     Option.bind (matchDigits 2 s2) (\<lambda>s3.
     Option.bind (matchChar 58 s3) (\<lambda>s4.
     Option.bind (matchDigits 2 s4) (\<lambda>s5.
     Option.bind (matchChar 44 s5) (\<lambda>s6.
     matchDigits 3 s6))))))"

text \<open>\<^verbatim>\<open>\s*\<close> followed by the rest \<open>k\<close> of the expression: any number of white space.\<close>

fun spacesThen :: "(jsstring \<Rightarrow> bool) \<Rightarrow> jsstring \<Rightarrow> bool" where
  "spacesThen k [] = k []"
| "spacesThen k (c # cs) = ((isWhiteSpace c \<and> spacesThen k cs) \<or> k (c # cs))"

definition matchArrow :: "jsstring \<Rightarrow> jsstring option" where
  "matchArrow s = (if startsWith s (js ''-->'') then Some (drop 3 s) else None)"

definition matchTimecodeRange :: "jsstring \<Rightarrow> bool" where
  "matchTimecodeRange s =
     (case matchTimestamp s of
        None \<Rightarrow> False
      | Some r \<Rightarrow>
          spacesThen (\<lambda>r1. case matchArrow r1 of
                              None \<Rightarrow> False
                            | Some r2 \<Rightarrow> spacesThen (\<lambda>r3. matchTimestamp r3 \<noteq> None) r2) r)"

text \<open>\<^verbatim>\<open>regex.test(text)\<close> without the sticky flag: a match at some position.\<close>

fun testAnywhere :: "(jsstring \<Rightarrow> bool) \<Rightarrow> jsstring \<Rightarrow> bool" where
  "testAnywhere m [] = m []"
| "testAnywhere m (c # cs) = (m (c # cs) \<or> testAnywhere m cs)"

definition hasSrtTimecodes :: "jsstring \<Rightarrow> bool" where
  "hasSrtTimecodes text = testAnywhere matchTimecodeRange text"

text \<open>
  \<^verbatim>\<open>translateText\<close> builds the request from one of two templates and sends it with
  \<^verbatim>\<open>ai.models.generateContent\<close>, which is outside the repository and is a parameter
  here: it returns the response text or throws.  Whatever is thrown is replaced by
  \<^verbatim>\<open>new Error("Failed to translate text.")\<close>.
\<close>

datatype thrown = Error jsstring | NonError

definition preservePrompt :: "jsstring \<Rightarrow> jsstring \<Rightarrow> jsstring" where
  "preservePrompt targetLanguageName text =
     js ''Translate the following text to '' @ targetLanguageName
     @ js '', preserving the SRT timecode and speaker formatting for each line. Provide only the translated text, nothing else.''
     @ [LF, LF] @ js ''TEXT: '' @ [34] @ text @ [34]"

definition plainPrompt :: "jsstring \<Rightarrow> jsstring \<Rightarrow> jsstring" where
  "plainPrompt targetLanguageName text =
     js ''Translate the following text to '' @ targetLanguageName
     @ js ''. Provide only the translated text, nothing else.''
     @ [LF, LF] @ js ''TEXT: '' @ [34] @ text @ [34]"

definition translatePrompt :: "jsstring \<Rightarrow> jsstring \<Rightarrow> jsstring" where
  "translatePrompt text targetLanguageName =
     (let shouldPreserveTimecodes = hasSrtTimecodes text
      in if shouldPreserveTimecodes then preservePrompt targetLanguageName text
         else plainPrompt targetLanguageName text)"

definition translateText ::
  "(jsstring \<Rightarrow> jsstring \<Rightarrow> thrown + jsstring) \<Rightarrow> jsstring \<Rightarrow> jsstring \<Rightarrow> thrown + jsstring" where
  "translateText generateContent text targetLanguageName =
     (case generateContent (js ''gemini-2.5-flash'') (translatePrompt text targetLanguageName) of
        Inr response \<Rightarrow> Inr response
      | Inl e \<Rightarrow> Inl (Error (js ''Failed to translate text.'')))"

section \<open>The SRT filter and the timecode test in the words of the specification\<close>

text \<open>
  The specification's contract of the filter: a line is removed when it is purely numeric,
  when it matches the timecode-range pattern \<^verbatim>\<open>HH:MM:SS,mmm --> HH:MM:SS,mmm\<close>, or when
  it is blank; the other lines are kept in order and joined with newlines.
\<close>

definition specLineRemoved :: "jsstring \<Rightarrow> bool" where
  "specLineRemoved line = (isCounter line \<or> hasSrtTimecodes line \<or> trim line = [])"

definition specSrtFilter :: "jsstring \<Rightarrow> jsstring" where
  "specSrtFilter text = joinWith [LF] (filter (\<lambda>line. \<not> specLineRemoved line) (splitLines text))"

text \<open>
  The specification's account of the translation request: the timecode-preserving
  instruction is chosen when the text has a line that the filter removes as a timecode line.
\<close>

definition specShouldPreserve :: "jsstring \<Rightarrow> bool" where
  "specShouldPreserve text = list_ex isTimecode (splitLines text)"

section \<open>The processing state of one file\<close>

text \<open>
  \<^verbatim>\<open>types.ts\<close>: the status is a string enum, so a comparison of two statuses compares
  their strings, code unit by code unit.
\<close>

datatype TranscriptionStatus = PENDING | TRANSCRIBING | TRANSLATED | SUMMARIZED | COMPLETED | ERROR

fun statusValue :: "TranscriptionStatus \<Rightarrow> jsstring" where
  "statusValue PENDING = js ''PENDING''"
| "statusValue TRANSCRIBING = js ''TRANSCRIBING''"
| "statusValue TRANSLATED = js ''TRANSLATED''"
| "statusValue SUMMARIZED = js ''SUMMARIZED''"
| "statusValue COMPLETED = js ''COMPLETED''"
| "statusValue ERROR = js ''ERROR''"

text \<open>\<^verbatim>\<open>a < b\<close> on strings.\<close>

fun stringLess :: "jsstring \<Rightarrow> jsstring \<Rightarrow> bool" where
  "stringLess [] [] = False"
| "stringLess [] (y # ys) = True"
| "stringLess (x # xs) [] = False"
| "stringLess (x # xs) (y # ys) = (x < y \<or> (x = y \<and> stringLess xs ys))"

text \<open>\<^verbatim>\<open>a >= b\<close> is \<^verbatim>\<open>!(a < b)\<close>, and \<^verbatim>\<open>a > b\<close> is \<^verbatim>\<open>b < a\<close>.\<close>

definition statusGe :: "TranscriptionStatus \<Rightarrow> TranscriptionStatus \<Rightarrow> bool" where
  "statusGe a b = (\<not> stringLess (statusValue a) (statusValue b))"

definition statusGt :: "TranscriptionStatus \<Rightarrow> TranscriptionStatus \<Rightarrow> bool" where
  "statusGt a b = stringLess (statusValue b) (statusValue a)"

record Language =
  code :: jsstring
  name :: jsstring

record ScriptQuote =
  speaker :: jsstring
  quote :: jsstring

text \<open>The fields of a browser \<^verbatim>\<open>File\<close> that the code reads.\<close>

record File =
  fileName :: jsstring
  fileSize :: nat
  lastModified :: int

text \<open>
  The props and the state variables of the \<^verbatim>\<open>FileProcessor\<close> component (\<open>fileProp\<close> is
  the prop \<^verbatim>\<open>file\<close>; the flag \<^verbatim>\<open>copied\<close> of the clipboard button is left out).  A value
  of type \<^verbatim>\<open>string | null\<close> is an option.
\<close>

record FileProcessor =
  fileProp :: File
  addTimecodes :: bool
  status :: TranscriptionStatus
  transcript :: "jsstring option"
  translation :: "jsstring option"
  script :: "ScriptQuote list option"
  error :: "jsstring option"
  targetLanguage :: Language
  isTranslating :: bool
  isGenerating :: bool

text \<open>
  The state after \<^verbatim>\<open>useState\<close>; the initial target language \<^verbatim>\<open>LANGUAGES[1]\<close> comes
  from \<^verbatim>\<open>constants\<close>, which is not part of the sources, and is a parameter.
\<close>

definition initialState :: "File \<Rightarrow> bool \<Rightarrow> Language \<Rightarrow> FileProcessor" where
  "initialState f tc lang =
     \<lparr>fileProp = f, addTimecodes = tc, status = PENDING, transcript = None, translation = None,
      script = None, error = None, targetLanguage = lang, isTranslating = False,
      isGenerating = False\<rparr>"

text \<open>A string or \<^verbatim>\<open>null\<close> used as a condition: \<^verbatim>\<open>null\<close> and the empty string are false.\<close>

fun truthy :: "jsstring option \<Rightarrow> bool" where
  "truthy None = False"
| "truthy (Some s) = (s \<noteq> [])"

text \<open>\<^verbatim>\<open>e instanceof Error ? e.message : fallback\<close>\<close>

fun messageOf :: "thrown \<Rightarrow> jsstring \<Rightarrow> jsstring" where
  "messageOf (Error m) fallback = m"
| "messageOf NonError fallback = fallback"

definition processTranscription ::
  "(File \<Rightarrow> bool \<Rightarrow> thrown + jsstring) \<Rightarrow> FileProcessor \<Rightarrow> FileProcessor" where
  "processTranscription transcribeAudio j =
     (let j1 = j\<lparr>status := TRANSCRIBING\<rparr>
      in case transcribeAudio (fileProp j) (addTimecodes j) of
           Inr result \<Rightarrow> j1\<lparr>transcript := Some result, status := COMPLETED\<rparr>
         | Inl e \<Rightarrow> j1\<lparr>error := Some (messageOf e (js ''An unknown error occurred.'')),
                         status := ERROR\<rparr>)"

text \<open>
  \<^verbatim>\<open>handleTranslate\<close>.  The translation operation is a parameter; the handler returns the
  new state together with the list of the calls it made to the operation, each call by
  its two arguments.
\<close>

definition handleTranslate ::
  "(jsstring \<Rightarrow> jsstring \<Rightarrow> thrown + jsstring) \<Rightarrow> FileProcessor
     \<Rightarrow> FileProcessor \<times> (jsstring \<times> jsstring) list" where
  "handleTranslate translate j =
     (if \<not> truthy (transcript j) then (j, [])
      else (let t = the (transcript j);
                j1 = j\<lparr>isTranslating := True, error := None\<rparr>;
                call = (t, name (targetLanguage j))
            in case translate t (name (targetLanguage j)) of
                 Inr result \<Rightarrow>
                   (j1\<lparr>translation := Some result, status := TRANSLATED, isTranslating := False\<rparr>,
                    [call])
               | Inl e \<Rightarrow>
                   (j1\<lparr>error := Some (messageOf e (js ''Translation failed.'')),
                       isTranslating := False\<rparr>,
                    [call])))"

text \<open>
  \<^verbatim>\<open>handleGenerateScript\<close>, with the quote extraction as a parameter and the list of the
  texts passed to it.
\<close>

definition handleGenerateScript ::
  "(jsstring \<Rightarrow> thrown + ScriptQuote list) \<Rightarrow> FileProcessor \<Rightarrow> FileProcessor \<times> jsstring list" where
  "handleGenerateScript generateScript j =
     (if \<not> truthy (translation j) then (j, [])
      else (let j1 = j\<lparr>isGenerating := True, error := None\<rparr>;
                textForScript =
                  (if addTimecodes j \<and> truthy (translation j)
                   then Some (stripSrtTimecodes (the (translation j)))
                   else translation j);
                arg = (if truthy textForScript then the textForScript else [])
            in case generateScript arg of
                 Inr result \<Rightarrow>
                   (j1\<lparr>script := Some result, status := SUMMARIZED, isGenerating := False\<rparr>, [arg])
               | Inl e \<Rightarrow>
                   (j1\<lparr>error := Some (messageOf e (js ''Script generation failed.'')),
                       isGenerating := False\<rparr>,
                    [arg])))"

text \<open>
  \<^verbatim>\<open>renderContent\<close>: when the two buttons are on the page and enabled, and when the error
  of a later stage is shown.  The first two tests are the early returns.
\<close>

definition bodyRendered :: "FileProcessor \<Rightarrow> bool" where
  "bodyRendered j =
     (\<not> (status j = TRANSCRIBING) \<and> \<not> (status j = ERROR \<and> \<not> truthy (transcript j)))"

definition translateOffered :: "FileProcessor \<Rightarrow> bool" where
  "translateOffered j =
     (bodyRendered j \<and> statusGe (status j) COMPLETED \<and> truthy (transcript j)
      \<and> \<not> isTranslating j)"

definition generateOffered :: "FileProcessor \<Rightarrow> bool" where
  "generateOffered j =
     (bodyRendered j \<and> statusGe (status j) TRANSLATED \<and> truthy (translation j)
      \<and> \<not> isGenerating j)"

definition errorShown :: "FileProcessor \<Rightarrow> bool" where
  "errorShown j = (bodyRendered j \<and> truthy (error j) \<and> statusGt (status j) COMPLETED)"

text \<open>
  Mounting the component: the state after \<^verbatim>\<open>useState\<close>, then the effect runs
  \<^verbatim>\<open>processTranscription\<close>.
\<close>

definition mountJob ::
  "(File \<Rightarrow> bool \<Rightarrow> thrown + jsstring) \<Rightarrow> File \<Rightarrow> bool \<Rightarrow> Language \<Rightarrow> FileProcessor" where
  "mountJob transcribeAudio f tc lang = processTranscription transcribeAudio (initialState f tc lang)"

text \<open>
  The timecode option is one toggle of \<^verbatim>\<open>App\<close>, passed to every \<^verbatim>\<open>FileProcessor\<close> as the
  prop \<^verbatim>\<open>addTimecodes\<close>; the key of the component does not depend on it, so the state of a
  job stays when the toggle changes.  \<^verbatim>\<open>processTranscription\<close> depends on the prop, so a
  change of the prop runs the effect and the transcription again.
\<close>

definition changeAddTimecodes ::
  "(File \<Rightarrow> bool \<Rightarrow> thrown + jsstring) \<Rightarrow> bool \<Rightarrow> FileProcessor \<Rightarrow> FileProcessor" where
  "changeAddTimecodes transcribeAudio checked j =
     (if checked = addTimecodes j then j
      else processTranscription transcribeAudio (j\<lparr>addTimecodes := checked\<rparr>))"

section \<open>The queue of files\<close>

text \<open>
  \<^verbatim>\<open>handleFilesSelected\<close> of \<^verbatim>\<open>App.tsx\<close>, from the queue to the new queue.  The handler
  filters against \<^verbatim>\<open>files\<close> of the last render and appends to the queue that \<^verbatim>\<open>setFiles\<close>
  passes to its callback; with one selection handled at a time the two are the same list.
\<close>

definition sameFile :: "File \<Rightarrow> File \<Rightarrow> bool" where
  "sameFile ef sf =
     (fileName ef = fileName sf \<and> fileSize ef = fileSize sf \<and> lastModified ef = lastModified sf)"

definition handleFilesSelected :: "File list \<Rightarrow> File list \<Rightarrow> File list" where
  "handleFilesSelected files selectedFiles =
     (let newFiles = filter (\<lambda>sf. \<not> list_ex (\<lambda>ef. sameFile ef sf) files) selectedFiles
      in files @ newFiles)"

text \<open>The triple that identifies a file, and a run of selections from the empty queue.\<close>

definition fileKey :: "File \<Rightarrow> jsstring \<times> nat \<times> int" where
  "fileKey f = (fileName f, fileSize f, lastModified f)"

definition selectAll :: "File list list \<Rightarrow> File list" where
  "selectAll selections = foldl handleFilesSelected [] selections"

section \<open>File names of the downloads\<close>

text \<open>
  \<^verbatim>\<open>formatFileName\<close> of \<^verbatim>\<open>generateDocx\<close>: \<^verbatim>\<open>split('.')\<close> always gives at least one
  part, and \<^verbatim>\<open>pop()\<close> removes the last one.
\<close>

definition formatFileName :: "jsstring \<Rightarrow> jsstring" where
  "formatFileName nm =
     (let parts = splitOn 46 nm;
          parts' = butlast parts
      in joinWith [46] parts' @ js ''_processed.docx'')"

text \<open>
  The base name of \<^verbatim>\<open>handleDownloadSrt\<close>:
  \<^verbatim>\<open>file.name.substring(0, file.name.lastIndexOf('.')) || file.name\<close>.  Without a dot
  \<^verbatim>\<open>lastIndexOf\<close> is \<open>-1\<close> and the substring is empty.
\<close>

fun lastIndexOf :: "nat \<Rightarrow> jsstring \<Rightarrow> nat option" where
  "lastIndexOf ch [] = None"
| "lastIndexOf ch (c # cs) =
     (case lastIndexOf ch cs of
        Some i \<Rightarrow> Some (Suc i)
      | None \<Rightarrow> if c = ch then Some 0 else None)"

definition srtBaseName :: "jsstring \<Rightarrow> jsstring" where
  "srtBaseName nm =
     (let b = (case lastIndexOf 46 nm of None \<Rightarrow> [] | Some i \<Rightarrow> take i nm)
      in if b \<noteq> [] then b else nm)"

definition srtDownloadName :: "jsstring \<Rightarrow> jsstring \<Rightarrow> jsstring" where
  "srtDownloadName nm kind = srtBaseName nm @ js ''_'' @ kind @ js ''.srt''"

section \<open>Grouping the quotes by speaker\<close>

text \<open>
  \<^verbatim>\<open>quotesBySpeaker\<close> collects the quotes in a plain object whose keys are the speakers.
  The own properties of the object are kept here in the order of their creation.
  \<^verbatim>\<open>Object.entries\<close> lists first the keys that are array indices (a decimal numeral
  without leading zero, below \<open>2^32 - 1\<close>) by ascending value, then the other keys in the
  order of their creation.
\<close>

type_synonym 'v jsobject = "(jsstring \<times> 'v) list"

definition digitsValue :: "jsstring \<Rightarrow> nat" where
  "digitsValue s = foldl (\<lambda>n c. 10 * n + (c - 48)) 0 s"

definition isArrayIndex :: "jsstring \<Rightarrow> bool" where
  "isArrayIndex k =
     (k \<noteq> [] \<and> list_all isDigit k \<and> (k = [48] \<or> hd k \<noteq> 48) \<and> digitsValue k < 2 ^ 32 - 1)"

definition objectEntries :: "'v jsobject \<Rightarrow> (jsstring \<times> 'v) list" where
  "objectEntries obj =
     sort_key (\<lambda>kv. digitsValue (fst kv)) (filter (\<lambda>kv. isArrayIndex (fst kv)) obj)
     @ filter (\<lambda>kv. \<not> isArrayIndex (fst kv)) obj"

text \<open>
  A read \<^verbatim>\<open>acc[key]\<close> of a key that is not an own property finds the properties that every
  object inherits from \<^verbatim>\<open>Object.prototype\<close>.
\<close>

definition inheritedKeys :: "jsstring list" where
  "inheritedKeys =
     [js ''constructor'', js ''__proto__'', js ''hasOwnProperty'', js ''isPrototypeOf'',
      js ''propertyIsEnumerable'', js ''toLocaleString'', js ''toString'', js ''valueOf'',
      js ''__defineGetter__'', js ''__defineSetter__'', js ''__lookupGetter__'',
      js ''__lookupSetter__'']"

fun updateProp :: "jsstring \<Rightarrow> 'v \<Rightarrow> 'v jsobject \<Rightarrow> 'v jsobject" where
  "updateProp k v [] = [(k, v)]"
| "updateProp k v ((k', v') # kvs) =
     (if k' = k then (k, v) # kvs else (k', v') # updateProp k v kvs)"

datatype jsError = TypeError

text \<open>
  One step of the \<^verbatim>\<open>reduce\<close>:
  \<^verbatim>\<open>(acc[q.speaker] = acc[q.speaker] || []).push(q)\<close>.
  An own property holds an array, which receives the quote.  An inherited property is a
  function or the prototype object: it is truthy, it has no \<^verbatim>\<open>push\<close>, and the call throws.
  Otherwise the key is created with a new array.
\<close>

definition pushQuote :: "ScriptQuote list jsobject \<Rightarrow> ScriptQuote \<Rightarrow> jsError + ScriptQuote list jsobject" where
  "pushQuote acc q =
     (case map_of acc (speaker q) of
        Some qs \<Rightarrow> Inr (updateProp (speaker q) (qs @ [q]) acc)
      | None \<Rightarrow>
          if speaker q \<in> set inheritedKeys then Inl TypeError
          else Inr (acc @ [(speaker q, [q])]))"

fun reduceQuotes ::
  "ScriptQuote list jsobject \<Rightarrow> ScriptQuote list \<Rightarrow> jsError + ScriptQuote list jsobject" where
  "reduceQuotes acc [] = Inr acc"
| "reduceQuotes acc (q # qs) =
     (case pushQuote acc q of
        Inl e \<Rightarrow> Inl e
      | Inr acc' \<Rightarrow> reduceQuotes acc' qs)"

definition quotesBySpeaker :: "ScriptQuote list \<Rightarrow> jsError + ScriptQuote list jsobject" where
  "quotesBySpeaker quotes = reduceQuotes [] quotes"

text \<open>
  The paragraphs of the Key Quotes section of the document: for every entry of the object
  the speaker in bold, then the quotes of that speaker in quotation marks.
\<close>

datatype Paragraph = SpeakerParagraph jsstring | QuoteParagraph jsstring

definition sectionOf :: "(jsstring \<times> ScriptQuote list) list \<Rightarrow> Paragraph list" where
  "sectionOf groups =
     concat (map (\<lambda>(sp, speakerQuotes).
                SpeakerParagraph sp
                # map (\<lambda>q. QuoteParagraph ([34] @ quote q @ [34])) speakerQuotes)
              groups)"

definition quoteSections :: "ScriptQuote list \<Rightarrow> jsError + Paragraph list" where
  "quoteSections quotes =
     (case quotesBySpeaker quotes of
        Inl e \<Rightarrow> Inl e
      | Inr obj \<Rightarrow> Inr (sectionOf (objectEntries obj)))"

text \<open>
  The grouping in the words of the specification: the speakers in the order of their first
  appearance, each with its quotes in the order of the list.
\<close>

fun firstAppearances :: "'a list \<Rightarrow> 'a list" where
  "firstAppearances [] = []"
| "firstAppearances (x # xs) = x # filter (\<lambda>y. y \<noteq> x) (firstAppearances xs)"

definition specGroups :: "ScriptQuote list \<Rightarrow> (jsstring \<times> ScriptQuote list) list" where
  "specGroups quotes =
     map (\<lambda>sp. (sp, filter (\<lambda>q. speaker q = sp) quotes)) (firstAppearances (map speaker quotes))"

text \<open>
  Speakers that are ordinary keys of an object: not an array index and not the name of an
  inherited property.
\<close>

definition plainSpeakers :: "ScriptQuote list \<Rightarrow> bool" where
  "plainSpeakers quotes =
     list_all (\<lambda>q. \<not> isArrayIndex (speaker q) \<and> speaker q \<notin> set inheritedKeys) quotes"

text \<open>
  The output name in the words of the specification: the extension, the part from the last
  dot on, is replaced; a name without a dot has no extension to replace.
\<close>

definition specOutputName :: "jsstring \<Rightarrow> jsstring" where
  "specOutputName nm =
     (case lastIndexOf 46 nm of
        None \<Rightarrow> nm @ js ''_processed.docx''
      | Some i \<Rightarrow> take i nm @ js ''_processed.docx'')"

section \<open>Lines read again\<close>

text \<open>
  When a text joined with LF is split again, a carriage return at the end of a line falls
  into the separator: the line comes back without it.
\<close>

definition chopCR :: "jsstring \<Rightarrow> jsstring" where
  "chopCR l = (if l \<noteq> [] \<and> last l = CR then butlast l else l)"

text \<open>A text in which every carriage return stands directly before an LF.\<close>

fun crBeforeLF :: "jsstring \<Rightarrow> bool" where
  "crBeforeLF [] = True"
| "crBeforeLF (c # cs) = ((c = CR \<longrightarrow> cs \<noteq> [] \<and> hd cs = LF) \<and> crBeforeLF cs)"

section \<open>Sample values\<close>

definition sampleFile :: File where
  "sampleFile = \<lparr>fileName = js ''interview.mp3'', fileSize = 2048, lastModified = 1700000000000\<rparr>"

definition spanish :: Language where
  "spanish = \<lparr>code = js ''es'', name = js ''Spanish''\<rparr>"

definition completedJob :: FileProcessor where
  "completedJob =
     (initialState sampleFile True spanish)\<lparr>status := COMPLETED, transcript := Some (js ''Hello'')\<rparr>"

definition translatedJob :: FileProcessor where
  "translatedJob =
     completedJob\<lparr>status := TRANSLATED,
       translation :=
         Some (js ''1'' @ [LF] @ js ''00:00:01,234 --> 00:00:05,678'' @ [LF] @ js ''Hola'')\<rparr>"

text \<open>A transcript in SRT form with Windows line breaks, and a text with a stray carriage return.\<close>

definition srtSample :: jsstring where
  "srtSample = js ''1'' @ [CR, LF] @ js ''00:00:01,234 --> 00:00:05,678'' @ [CR, LF]
     @ js ''Speaker 1: Hi'' @ [CR, LF, CR, LF] @ js ''2'' @ [CR, LF]
     @ js ''00:00:06,000 --> 00:00:07,500'' @ [CR, LF] @ js ''Speaker 2: Bye''"

definition crSample :: jsstring where
  "crSample = js ''a'' @ [CR, CR, LF] @ js ''b''"

definition unnamedFile :: File where
  "unnamedFile = \<lparr>fileName = js ''interview'', fileSize = 2048, lastModified = 1700000000000\<rparr>"

definition labelledQuotes :: "ScriptQuote list" where
  "labelledQuotes =
     [\<lparr>speaker = js ''Speaker B'', quote = js ''We begin.''\<rparr>,
      \<lparr>speaker = js ''Speaker A'', quote = js ''Thank you.''\<rparr>,
      \<lparr>speaker = js ''Speaker B'', quote = js ''Welcome.''\<rparr>]"

definition numberedQuotes :: "ScriptQuote list" where
  "numberedQuotes =
     [\<lparr>speaker = js ''2'', quote = js ''We begin.''\<rparr>,
      \<lparr>speaker = js ''1'', quote = js ''Thank you.''\<rparr>,
      \<lparr>speaker = js ''2'', quote = js ''Welcome.''\<rparr>]"

text \<open>
  A job that is created with the timecode option on, whose toggle is then switched off,
  and that is translated afterwards into two paragraphs with a blank line between them.
\<close>

definition sampleTranscribe :: "File \<Rightarrow> bool \<Rightarrow> thrown + jsstring" where
  "sampleTranscribe f tc = Inr (if tc then srtSample else js ''Speaker 1: Hi'')"

definition paragraphs :: jsstring where
  "paragraphs = js ''Hola'' @ [LF, LF] @ js ''Adios''"

definition sampleTranslate :: "jsstring \<Rightarrow> jsstring \<Rightarrow> thrown + jsstring" where
  "sampleTranslate t l = Inr paragraphs"

definition toggledJob :: FileProcessor where
  "toggledJob =
     fst (handleTranslate sampleTranslate
            (changeAddTimecodes sampleTranscribe False
               (mountJob sampleTranscribe sampleFile True spanish)))"

section \<open>Comparison of statuses\<close>

lemma statusGe_COMPLETED: "statusGe s COMPLETED"
  by (cases s) (simp_all add: statusGe_def js_def)

lemma statusGe_TRANSLATED: "statusGe s TRANSLATED \<longleftrightarrow> s = TRANSLATED"
  by (cases s) (simp_all add: statusGe_def js_def)

lemma statusGt_COMPLETED: "statusGt s COMPLETED \<longleftrightarrow> s \<noteq> COMPLETED"
  by (cases s) (simp_all add: statusGt_def js_def)

section \<open>The translate action\<close>

lemma translateOffered_iff:
  "translateOffered j \<longleftrightarrow>
     status j \<noteq> TRANSCRIBING \<and> truthy (transcript j) \<and> \<not> isTranslating j"
  by (auto simp: translateOffered_def bodyRendered_def statusGe_COMPLETED)

text \<open>
  Without a transcript, or with the empty transcript, the button is not on the page, and
  the handler itself returns at once.
\<close>

lemma handleTranslate_guard:
  "\<not> truthy (transcript j) \<Longrightarrow> \<not> translateOffered j \<and> handleTranslate translate j = (j, [])"
  by (simp add: translateOffered_iff handleTranslate_def)

text \<open>
  C1.  Take a job in the state Completed with transcript \<open>T\<close> and selected language \<open>L\<close> on
  which the translate action can be invoked, that is, whose Translate button is on the
  page and enabled.  The action calls the translation operation once, with exactly \<open>T\<close> and
  the name of \<open>L\<close>.  When the operation succeeds with a result, the action stores the result
  as the translation, sets the status to Translated and leaves the transcript as it was.
\<close>

theorem translate_completed:
  assumes "status j = COMPLETED" and "transcript j = Some T" and "targetLanguage j = L"
    and "translateOffered j"
  shows "snd (handleTranslate translate j) = [(T, name L)]
       \<and> (\<forall>result. translate T (name L) = Inr result \<longrightarrow>
            translation (fst (handleTranslate translate j)) = Some result
            \<and> status (fst (handleTranslate translate j)) = TRANSLATED
            \<and> transcript (fst (handleTranslate translate j)) = Some T)"
proof -
  from assms have ne: "truthy (transcript j)"
    by (simp add: translateOffered_def)
  show ?thesis
    using ne assms(2,3)
    by (cases "translate T (name L)") (simp_all add: handleTranslate_def Let_def)
qed

theorem translate_completed_witness:
  "status completedJob = COMPLETED
   \<and> transcript completedJob = Some (js ''Hello'')
   \<and> targetLanguage completedJob = spanish
   \<and> translateOffered completedJob
   \<and> snd (handleTranslate (\<lambda>t l. Inr (js ''Hola'')) completedJob) = [(js ''Hello'', js ''Spanish'')]
   \<and> translation (fst (handleTranslate (\<lambda>t l. Inr (js ''Hola'')) completedJob)) = Some (js ''Hola'')
   \<and> status (fst (handleTranslate (\<lambda>t l. Inr (js ''Hola'')) completedJob)) = TRANSLATED
   \<and> transcript (fst (handleTranslate (\<lambda>t l. Inr (js ''Hola'')) completedJob)) = Some (js ''Hello'')"
proof -
  have h: "status completedJob = COMPLETED" "transcript completedJob = Some (js ''Hello'')"
    "targetLanguage completedJob = spanish" "translateOffered completedJob"
    by (simp_all add: completedJob_def initialState_def translateOffered_iff js_def)
  from translate_completed [OF h, of "\<lambda>t l. Inr (js ''Hola'')"] h
  show ?thesis by (simp add: spanish_def)
qed

text \<open>
  The translation operation of the application fails with one message, whatever was thrown.
\<close>

lemma translateText_failure:
  "translateText generateContent t l = Inl e \<Longrightarrow> e = Error (js ''Failed to translate text.'')"
  by (auto simp: translateText_def split: sum.splits)

text \<open>
  C2.  When the translate action makes its remote call and the call fails, the transcript
  and the status are what they were before the action, and the error is set to a message.
\<close>

theorem translate_failure:
  assumes "snd (handleTranslate translate j) = [(T, L)]" and "translate T L = Inl e"
  shows "transcript (fst (handleTranslate translate j)) = transcript j
       \<and> status (fst (handleTranslate translate j)) = status j
       \<and> error (fst (handleTranslate translate j)) \<noteq> None"
proof (cases "truthy (transcript j)")
  case False
  with assms(1) show ?thesis by (simp add: handleTranslate_def)
next
  case True
  with assms(1) have "T = the (transcript j)" "L = name (targetLanguage j)"
    by (auto simp: handleTranslate_def Let_def split: sum.splits)
  with True assms(2) show ?thesis
    by (simp add: handleTranslate_def Let_def)
qed

theorem translate_failure_witness:
  "snd (handleTranslate (\<lambda>t l. Inl (Error (js ''Failed to translate text.''))) completedJob)
     = [(js ''Hello'', js ''Spanish'')]
   \<and> transcript (fst (handleTranslate (\<lambda>t l. Inl (Error (js ''Failed to translate text.''))) completedJob))
       = Some (js ''Hello'')
   \<and> status (fst (handleTranslate (\<lambda>t l. Inl (Error (js ''Failed to translate text.''))) completedJob))
       = COMPLETED
   \<and> error (fst (handleTranslate (\<lambda>t l. Inl (Error (js ''Failed to translate text.''))) completedJob))
       \<noteq> None"
proof -
  have h: "snd (handleTranslate (\<lambda>t l. Inl (Error (js ''Failed to translate text.''))) completedJob)
     = [(js ''Hello'', js ''Spanish'')]"
    by (simp add: handleTranslate_def completedJob_def initialState_def spanish_def js_def)
  from translate_failure [OF h refl] h show ?thesis
    by (simp add: completedJob_def initialState_def)
qed

section \<open>Strings and lines\<close>

lemma startsWith_iff: "startsWith s p \<longleftrightarrow> (\<exists>r. s = p @ r)"
  by (induction s p rule: startsWith.induct) auto

lemma includesStr_iff: "includesStr s p \<longleftrightarrow> (\<exists>a b. s = a @ p @ b)"
proof (induction s)
  case Nil
  then show ?case by auto
next
  case (Cons c cs)
  show ?case
  proof
    assume "includesStr (c # cs) p"
    then consider "startsWith (c # cs) p" | "includesStr cs p" by auto
    then show "\<exists>a b. c # cs = a @ p @ b"
    proof cases
      case 1
      then obtain r where "c # cs = p @ r" by (auto simp: startsWith_iff)
      then have "c # cs = [] @ p @ r" by simp
      then show ?thesis by blast
    next
      case 2
      with Cons obtain a b where "cs = a @ p @ b" by auto
      then have "c # cs = (c # a) @ p @ b" by simp
      then show ?thesis by blast
    qed
  next
    assume "\<exists>a b. c # cs = a @ p @ b"
    then obtain a b where ab: "c # cs = a @ p @ b" by blast
    show "includesStr (c # cs) p"
    proof (cases a)
      case Nil
      with ab have "startsWith (c # cs) p" by (auto simp: startsWith_iff)
      then show ?thesis by simp
    next
      case (Cons x a')
      with ab have "cs = a' @ p @ b" by simp
      with Cons.IH have "includesStr cs p" by blast
      then show ?thesis by simp
    qed
  qed
qed

lemma splitLines_not_Nil [simp]: "splitLines s \<noteq> []"
  by (induction s rule: splitLines.induct) (auto split: list.splits)

lemma splitLines_line_LF:
  "LF \<notin> set l \<Longrightarrow> splitLines (l @ LF # rest) = chopCR l # splitLines rest"
proof (induction l)
  case Nil
  then show ?case by (simp add: chopCR_def)
next
  case (Cons c l)
  then have c: "c \<noteq> LF" and l: "LF \<notin> set l" by auto
  show ?case
  proof (cases "c = CR \<and> l = []")
    case True
    then show ?thesis by (simp add: chopCR_def)
  next
    case False
    then have "\<not> (c = CR \<and> (l @ LF # rest) \<noteq> [] \<and> hd (l @ LF # rest) = LF)"
      using l by (cases l) auto
    with c have "splitLines ((c # l) @ LF # rest)
        = (case splitLines (l @ LF # rest) of [] \<Rightarrow> [[c]] | x # xs \<Rightarrow> (c # x) # xs)"
      by auto
    also have "\<dots> = (c # chopCR l) # splitLines rest"
      using Cons.IH [OF l] by simp
    also have "c # chopCR l = chopCR (c # l)"
      using False by (cases l) (auto simp: chopCR_def)
    finally show ?thesis .
  qed
qed

lemma splitLines_single: "LF \<notin> set l \<Longrightarrow> splitLines l = [l]"
proof (induction l)
  case Nil
  then show ?case by simp
next
  case (Cons c l)
  then have "splitLines l = [l]" and "c \<noteq> LF" by auto
  moreover from Cons.prems have "l \<noteq> [] \<Longrightarrow> hd l \<noteq> LF"
    by (cases l) auto
  ultimately show ?case by auto
qed

lemma splitLines_no_LF: "l \<in> set (splitLines s) \<Longrightarrow> LF \<notin> set l"
proof (induction s arbitrary: l rule: splitLines.induct)
  case 1
  then show ?case by simp
next
  case (2 c cs)
  show ?case
  proof (cases "c = LF")
    case True
    with 2 show ?thesis by auto
  next
    case nl: False
    show ?thesis
    proof (cases "c = CR \<and> cs \<noteq> [] \<and> hd cs = LF")
      case True
      with 2 nl show ?thesis by auto
    next
      case False
      obtain x xs where sp: "splitLines cs = x # xs"
        by (cases "splitLines cs") auto
      with False nl 2(4) have "l = c # x \<or> l \<in> set xs" by auto
      moreover have "LF \<notin> set x" "\<And>y. y \<in> set xs \<Longrightarrow> LF \<notin> set y"
        using 2(3) [OF nl False] sp by auto
      ultimately show ?thesis using nl by auto
    qed
  qed
qed

lemma splitLines_joinWith:
  assumes "ls \<noteq> []" and "\<forall>l\<in>set ls. LF \<notin> set l"
  shows "splitLines (joinWith [LF] ls) = map chopCR (butlast ls) @ [last ls]"
  using assms
proof (induction "[LF]" ls rule: joinWith.induct)
  case 1
  then show ?case by simp
next
  case (2 l)
  then show ?case by (simp add: splitLines_single)
next
  case (3 l l' ls)
  then show ?case by (simp add: splitLines_line_LF)
qed


lemma strip_eq: "stripSrtTimecodes s = joinWith [LF] (filter keepLine (splitLines s))"
  by (simp add: stripSrtTimecodes_def keepLine_def trim_def)

lemma isWhiteSpace_CR [simp]: "isWhiteSpace CR"
  by (simp add: isWhiteSpace_def)

lemma trim_snoc_CR: "trim (l @ [CR]) = trim l"
proof (cases "\<forall>c\<in>set l. isWhiteSpace c")
  case True
  then have e: "dropWhile isWhiteSpace (l @ [CR]) = []" "dropWhile isWhiteSpace l = []"
    by (simp_all add: dropWhile_eq_Nil_conv)
  show ?thesis unfolding trim_def by (simp only: e)
next
  case False
  then obtain x where "x \<in> set l" "\<not> isWhiteSpace x" by blast
  then have "dropWhile isWhiteSpace (l @ [CR]) = dropWhile isWhiteSpace l @ [CR]"
    by (rule dropWhile_append1)
  then show ?thesis by (simp add: trim_def)
qed

lemma isTimecode_snoc_CR: "isTimecode (l @ [CR]) = isTimecode l"
proof
  assume "isTimecode (l @ [CR])"
  then obtain a b where ab: "l @ [CR] = a @ js ''-->'' @ b"
    by (auto simp: isTimecode_def includesStr_iff)
  have "b \<noteq> []"
  proof
    assume "b = []"
    with ab have "last (l @ [CR]) = last (a @ js ''-->'')" by simp
    then show False by (simp add: js_def)
  qed
  then obtain b' x where b: "b = b' @ [x]" by (metis rev_exhaust)
  with ab have "l @ [CR] = (a @ js ''-->'' @ b') @ [x]" by simp
  then have "l = a @ js ''-->'' @ b'" by (simp only: append1_eq_conv)
  then show "isTimecode l" by (auto simp: isTimecode_def includesStr_iff)
next
  assume "isTimecode l"
  then obtain a b where "l = a @ js ''-->'' @ b"
    by (auto simp: isTimecode_def includesStr_iff)
  then have "l @ [CR] = a @ js ''-->'' @ (b @ [CR])" by simp
  then show "isTimecode (l @ [CR])"
    unfolding isTimecode_def includesStr_iff by blast
qed

lemma keepLine_chopCR [simp]: "keepLine (chopCR l) = keepLine l"
proof (cases "l \<noteq> [] \<and> last l = CR")
  case True
  then have "l = butlast l @ [CR]" by (metis append_butlast_last_id)
  then have "keepLine l = keepLine (butlast l)"
    by (metis keepLine_def isCounter_def trim_snoc_CR isTimecode_snoc_CR)
  with True show ?thesis by (simp add: chopCR_def)
next
  case False
  then show ?thesis by (auto simp: chopCR_def)
qed

lemma keepLine_not_Nil: "keepLine l \<Longrightarrow> l \<noteq> []"
  by (auto simp: keepLine_def trim_def)

lemma length_joinWith:
  "ls \<noteq> [] \<Longrightarrow> length (joinWith sep ls) + length sep = sum_list (map length ls) + length ls * length sep"
  by (induction sep ls rule: joinWith.induct) auto

lemma length_chopCR: "length (chopCR l) \<le> length l"
  by (simp add: chopCR_def)

lemma sum_length_chop:
  "sum_list (map length (map chopCR ls)) \<le> sum_list (map length ls)"
  by (induction ls) (auto simp: chopCR_def)

lemma sum_length_chop_less:
  assumes "l \<in> set ls" and "l \<noteq> []" and "last l = CR"
  shows "sum_list (map length (map chopCR ls)) < sum_list (map length ls)"
  using assms
proof (induction ls)
  case Nil
  then show ?case by simp
next
  case (Cons x xs)
  show ?case
  proof (cases "l = x")
    case True
    with Cons.prems have "length (chopCR x) < length x" by (simp add: chopCR_def)
    with sum_length_chop [of xs] show ?thesis by simp
  next
    case False
    with Cons have "sum_list (map length (map chopCR xs)) < sum_list (map length xs)" by simp
    with length_chopCR [of x] show ?thesis by simp
  qed
qed

lemma chop_id: "\<forall>l\<in>set ls. l \<noteq> [] \<longrightarrow> last l \<noteq> CR \<Longrightarrow> map chopCR ls = ls"
  by (induction ls) (auto simp: chopCR_def)

lemma strip_twice:
  assumes "filter keepLine (splitLines s) = ls" and "ls \<noteq> []"
  shows "stripSrtTimecodes (stripSrtTimecodes s) = joinWith [LF] (map chopCR (butlast ls) @ [last ls])"
proof -
  have nolf: "\<forall>l\<in>set ls. LF \<notin> set l"
    using assms(1) splitLines_no_LF by auto
  have kept: "\<forall>l\<in>set ls. keepLine l" using assms(1) by auto
  have "splitLines (stripSrtTimecodes s) = map chopCR (butlast ls) @ [last ls]"
    using splitLines_joinWith [OF assms(2) nolf] assms(1) by (simp add: strip_eq)
  moreover have "filter keepLine (butlast ls) = butlast ls"
    using kept by (auto simp: filter_id_conv dest: in_set_butlastD)
  then have "filter keepLine (map chopCR (butlast ls) @ [last ls]) = map chopCR (butlast ls) @ [last ls]"
    using kept assms(2) by (simp add: filter_map o_def)
  ultimately show ?thesis by (simp add: strip_eq [of "stripSrtTimecodes s"])
qed

section \<open>What the timecode test matches\<close>

lemma matchDigits_suffix: "matchDigits n s = Some r \<Longrightarrow> \<exists>p. s = p @ r"
proof (induction n s rule: matchDigits.induct)
  case (1 s)
  then show ?case by simp
next
  case (2 n)
  then show ?case by simp
next
  case (3 n c cs)
  then obtain p where "cs = p @ r" by (auto split: if_splits)
  then have "c # cs = (c # p) @ r" by simp
  then show ?case by blast
qed

lemma matchChar_suffix: "matchChar ch s = Some r \<Longrightarrow> s = ch # r"
  by (cases s) (auto split: if_splits)

lemma matchTimestamp_suffix:
  assumes "matchTimestamp s = Some r"
  shows "\<exists>p. s = p @ r"
proof -
  from assms obtain s1 s2 s3 s4 s5 s6 where
    m: "matchDigits 2 s = Some s1" "matchChar 58 s1 = Some s2" "matchDigits 2 s2 = Some s3"
       "matchChar 58 s3 = Some s4" "matchDigits 2 s4 = Some s5" "matchChar 44 s5 = Some s6"
       "matchDigits 3 s6 = Some r"
    unfolding matchTimestamp_def bind_eq_Some_conv by blast
  from m(1) obtain p1 where "s = p1 @ s1" by (blast dest: matchDigits_suffix)
  moreover from m(2) have "s1 = 58 # s2" by (rule matchChar_suffix)
  moreover from m(3) obtain p3 where "s2 = p3 @ s3" by (blast dest: matchDigits_suffix)
  moreover from m(4) have "s3 = 58 # s4" by (rule matchChar_suffix)
  moreover from m(5) obtain p5 where "s4 = p5 @ s5" by (blast dest: matchDigits_suffix)
  moreover from m(6) have "s5 = 44 # s6" by (rule matchChar_suffix)
  moreover from m(7) obtain p7 where "s6 = p7 @ r" by (blast dest: matchDigits_suffix)
  ultimately have "s = (p1 @ 58 # p3 @ 58 # p5 @ 44 # p7) @ r" by simp
  then show ?thesis by blast
qed

lemma spacesThen_suffix: "spacesThen k s \<Longrightarrow> \<exists>p r. s = p @ r \<and> k r"
proof (induction k s rule: spacesThen.induct)
  case (1 k)
  then show ?case by simp
next
  case (2 k c cs)
  from 2(2) consider "isWhiteSpace c \<and> spacesThen k cs" | "k (c # cs)" by auto
  then show ?case
  proof cases
    case 1
    with 2(1) obtain p r where "cs = p @ r" "k r" by blast
    then have "c # cs = (c # p) @ r \<and> k r" by simp
    then show ?thesis by blast
  next
    case 2
    then have "c # cs = [] @ (c # cs) \<and> k (c # cs)" by simp
    then show ?thesis by blast
  qed
qed

lemma matchArrow_suffix: "matchArrow s = Some r \<Longrightarrow> s = js ''-->'' @ r"
  by (auto simp: matchArrow_def startsWith_iff js_def split: if_splits)

lemma matchTimecodeRange_arrow:
  assumes "matchTimecodeRange s"
  shows "\<exists>a b. s = a @ js ''-->'' @ b"
proof -
  from assms obtain r where r: "matchTimestamp s = Some r"
    and sp: "spacesThen (\<lambda>r1. case matchArrow r1 of None \<Rightarrow> False
               | Some r2 \<Rightarrow> spacesThen (\<lambda>r3. matchTimestamp r3 \<noteq> None) r2) r"
    by (auto simp: matchTimecodeRange_def split: option.splits)
  from r obtain p where p: "s = p @ r" by (blast dest: matchTimestamp_suffix)
  from spacesThen_suffix [OF sp] obtain q r1 where
    q: "r = q @ r1" and "case matchArrow r1 of None \<Rightarrow> False
               | Some r2 \<Rightarrow> spacesThen (\<lambda>r3. matchTimestamp r3 \<noteq> None) r2"
    by blast
  then obtain r2 where "matchArrow r1 = Some r2" by (auto split: option.splits)
  then have "r1 = js ''-->'' @ r2" by (rule matchArrow_suffix)
  with p q have "s = (p @ q) @ js ''-->'' @ r2" by simp
  then show ?thesis by blast
qed

lemma testAnywhere_suffix: "testAnywhere m s \<Longrightarrow> \<exists>a b. s = a @ b \<and> m b"
proof (induction s)
  case Nil
  then have "m []" by simp
  then have "([]::jsstring) = [] @ [] \<and> m []" by simp
  then show ?case by (intro exI)
next
  case (Cons c cs)
  from Cons.prems have "m (c # cs) \<or> testAnywhere m cs" by simp
  then show ?case
  proof
    assume "m (c # cs)"
    then have "c # cs = [] @ (c # cs) \<and> m (c # cs)" by simp
    then show ?thesis by (intro exI)
  next
    assume "testAnywhere m cs"
    with Cons.IH obtain a b where "cs = a @ b" "m b" by blast
    then have "c # cs = (c # a) @ b \<and> m b" by simp
    then show ?thesis by (intro exI)
  qed
qed

lemma hasSrtTimecodes_isTimecode:
  assumes "hasSrtTimecodes s"
  shows "isTimecode s"
proof -
  from assms obtain a b where ab: "s = a @ b" "matchTimecodeRange b"
    unfolding hasSrtTimecodes_def by (blast dest: testAnywhere_suffix)
  then obtain c d where "b = c @ js ''-->'' @ d" by (blast dest: matchTimecodeRange_arrow)
  with ab have "s = (a @ c) @ js ''-->'' @ d" by simp
  then show ?thesis unfolding isTimecode_def includesStr_iff by blast
qed

text \<open>A piece of text without line break characters lies within one line.\<close>

lemma splitLines_prefix_line:
  assumes "LF \<notin> set p" and "CR \<notin> set p"
  shows "\<exists>x xs. splitLines (p @ b) = (p @ x) # xs"
  using assms
proof (induction p)
  case Nil
  then show ?case by (cases "splitLines b") simp_all
next
  case (Cons c p)
  then obtain x xs where "splitLines (p @ b) = (p @ x) # xs" by auto
  moreover from Cons.prems have "c \<noteq> LF" "c \<noteq> CR" by auto
  ultimately have "splitLines ((c # p) @ b) = ((c # p) @ x) # xs" by simp
  then show ?case by blast
qed

lemma includes_in_line:
  assumes "LF \<notin> set p" and "CR \<notin> set p"
  shows "s = a @ p @ b \<Longrightarrow> \<exists>l\<in>set (splitLines s). \<exists>a' b'. l = a' @ p @ b'"
proof (induction s arbitrary: a rule: splitLines.induct)
  case 1
  then have "p = []" by simp
  then show ?case by simp
next
  case (2 c cs)
  show ?case
  proof (cases a)
    case Nil
    with 2(4) have "c # cs = p @ b" by simp
    with splitLines_prefix_line [OF assms, of b]
    obtain x xs where "splitLines (c # cs) = (p @ x) # xs" by auto
    then have "p @ x \<in> set (splitLines (c # cs))" by (simp only: list.set_intros(1))
    moreover have "p @ x = [] @ p @ x" by simp
    ultimately show ?thesis by blast
  next
    case (Cons y a')
    with 2(4) have cs: "cs = a' @ p @ b" and y: "c = y" by auto
    show ?thesis
    proof (cases "c = LF")
      case True
      with 2(1) [OF True cs] show ?thesis by auto
    next
      case nl: False
      show ?thesis
      proof (cases "c = CR \<and> cs \<noteq> [] \<and> hd cs = LF")
        case True
        show ?thesis
        proof (cases a')
          case Nil
          with cs True assms have "p = []" by (cases p) auto
          then show ?thesis using splitLines_not_Nil [of "c # cs"]
            by (metis append_Nil last_in_set append.right_neutral)
        next
          case (Cons z a'')
          with cs have "tl cs = a'' @ p @ b" by simp
          from 2(2) [OF nl True this] True nl show ?thesis by auto
        qed
      next
        case False
        from 2(3) [OF nl False cs] obtain l a1 b1 where
          l: "l \<in> set (splitLines cs)" "l = a1 @ p @ b1" by blast
        obtain x xs where sp: "splitLines cs = x # xs" by (cases "splitLines cs") auto
        with False nl have res: "splitLines (c # cs) = (c # x) # xs" by auto
        from l sp consider "l = x" | "l \<in> set xs" by auto
        then show ?thesis
        proof cases
          case 1
          with l have "c # x = (c # a1) @ p @ b1" by simp
          with res show ?thesis by (metis list.set_intros(1))
        next
          case 2
          with res l show ?thesis by (metis list.set_intros(2))
        qed
      qed
    qed
  qed
qed

lemma isTimecode_line:
  assumes "isTimecode s"
  shows "list_ex isTimecode (splitLines s)"
proof -
  from assms obtain a b where "s = a @ js ''-->'' @ b"
    by (auto simp: isTimecode_def includesStr_iff)
  moreover have "LF \<notin> set (js ''-->'')" "CR \<notin> set (js ''-->'')" by (simp_all add: js_def)
  ultimately obtain l where "l \<in> set (splitLines s)" "\<exists>a' b'. l = a' @ js ''-->'' @ b'"
    using includes_in_line by blast
  then show ?thesis
    unfolding list_ex_iff isTimecode_def includesStr_iff by blast
qed


lemma prompts_differ: "preservePrompt lang text \<noteq> plainPrompt lang text"
  by (simp add: preservePrompt_def plainPrompt_def js_def)

section \<open>The contract of the SRT filter\<close>

lemmas evals = js_def keepLine_def isTimecode_def isCounter_def trim_def isWhiteSpace_def isDigit_def

lemma splitLines_srtSample:
  "splitLines srtSample =
     [js ''1'', js ''00:00:01,234 --> 00:00:05,678'', js ''Speaker 1: Hi'', [], js ''2'',
      js ''00:00:06,000 --> 00:00:07,500'', js ''Speaker 2: Bye'']"
  by (simp add: srtSample_def js_def)

lemma kept_srtSample:
  "filter keepLine (splitLines srtSample) = [js ''Speaker 1: Hi'', js ''Speaker 2: Bye'']"
  unfolding splitLines_srtSample by (simp add: evals)

lemma strip_srtSample:
  "stripSrtTimecodes srtSample = js ''Speaker 1: Hi'' @ [LF] @ js ''Speaker 2: Bye''"
  unfolding strip_eq kept_srtSample by simp

lemma matchDigits_numeral:
  "matchDigits (numeral k) s =
     (case s of [] \<Rightarrow> None | c # cs \<Rightarrow> if isDigit c then matchDigits (pred_numeral k) cs else None)"
  by (cases s) (simp_all add: numeral_eq_Suc)

lemma matchDigits_1:
  "matchDigits 1 s = (case s of [] \<Rightarrow> None | c # cs \<Rightarrow> if isDigit c then Some cs else None)"
  by (cases s) simp_all

lemmas regex_evals = hasSrtTimecodes_def matchTimecodeRange_def matchTimestamp_def matchArrow_def
  js_def isDigit_def isWhiteSpace_def matchDigits_numeral matchDigits_1

lemma hasSrtTimecodes_cue1: "hasSrtTimecodes (js ''00:00:01,234 --> 00:00:05,678'')"
  by (simp add: regex_evals)

lemma hasSrtTimecodes_cue2: "hasSrtTimecodes (js ''00:00:06,000 --> 00:00:07,500'')"
  by (simp add: regex_evals)

lemma not_hasSrtTimecodes_arrow: "\<not> hasSrtTimecodes (js ''a --> b'')"
  by (simp add: regex_evals)

text \<open>
  C4, as amended.  The filter removes exactly the lines that contain \<^verbatim>\<open>-->\<close>, the lines
  that are a number once the white space around them is trimmed, and the lines that are
  blank once trimmed; the other lines are kept in their order and joined with newlines, and
  the empty text gives the empty text.  Every line that matches the timecode-range pattern
  contains \<^verbatim>\<open>-->\<close> and is removed.  On a text whose lines with \<^verbatim>\<open>-->\<close> all match the
  pattern, the filter is the filter of the specification.
\<close>

theorem strip_removes:
  "stripSrtTimecodes s
     = joinWith [LF] (filter (\<lambda>l. \<not> (isTimecode l \<or> isCounter l \<or> trim l = [])) (splitLines s))
   \<and> (\<forall>l. hasSrtTimecodes l \<longrightarrow> isTimecode l)
   \<and> ((\<forall>l\<in>set (splitLines s). isTimecode l \<longrightarrow> hasSrtTimecodes l)
        \<longrightarrow> stripSrtTimecodes s = specSrtFilter s)
   \<and> stripSrtTimecodes [] = []"
proof (intro conjI impI allI)
  show "stripSrtTimecodes s
     = joinWith [LF] (filter (\<lambda>l. \<not> (isTimecode l \<or> isCounter l \<or> trim l = [])) (splitLines s))"
    by (simp add: strip_eq keepLine_def [abs_def])
next
  fix l assume "hasSrtTimecodes l"
  then show "isTimecode l" by (rule hasSrtTimecodes_isTimecode)
next
  assume a: "\<forall>l\<in>set (splitLines s). isTimecode l \<longrightarrow> hasSrtTimecodes l"
  have "filter keepLine (splitLines s) = filter (\<lambda>line. \<not> specLineRemoved line) (splitLines s)"
  proof (rule filter_cong [OF refl])
    fix l assume "l \<in> set (splitLines s)"
    with a have "isTimecode l \<longleftrightarrow> hasSrtTimecodes l"
      using hasSrtTimecodes_isTimecode by blast
    then show "keepLine l = (\<not> specLineRemoved l)"
      by (auto simp: keepLine_def specLineRemoved_def)
  qed
  then show "stripSrtTimecodes s = specSrtFilter s"
    by (simp add: strip_eq specSrtFilter_def)
next
  show "stripSrtTimecodes [] = []" by (simp add: stripSrtTimecodes_def)
qed

theorem strip_removes_witness:
  "hasSrtTimecodes (js ''00:00:01,234 --> 00:00:05,678'')
   \<and> isTimecode (js ''00:00:01,234 --> 00:00:05,678'')
   \<and> stripSrtTimecodes srtSample = js ''Speaker 1: Hi'' @ [LF] @ js ''Speaker 2: Bye''
   \<and> specSrtFilter srtSample = js ''Speaker 1: Hi'' @ [LF] @ js ''Speaker 2: Bye''"
proof -
  have lines: "\<forall>l\<in>set (splitLines srtSample). isTimecode l \<longrightarrow> hasSrtTimecodes l"
    unfolding splitLines_srtSample using hasSrtTimecodes_cue1 hasSrtTimecodes_cue2 by (simp add: isTimecode_def) (simp add: js_def)
  from strip_removes [of srtSample] lines
  have "stripSrtTimecodes srtSample = specSrtFilter srtSample" by blast
  moreover from strip_removes [of srtSample] hasSrtTimecodes_cue1
  have "isTimecode (js ''00:00:01,234 --> 00:00:05,678'')" by blast
  ultimately show ?thesis using hasSrtTimecodes_cue1 strip_srtSample by simp
qed

text \<open>
  C4 as stated fails: the line \<^verbatim>\<open>a --> b\<close> is not a number, does not match the
  timecode-range pattern and is not blank, and the filter removes it.
\<close>

theorem strip_arrow_line_counterexample:
  "\<not> isCounter (js ''a --> b'') \<and> \<not> hasSrtTimecodes (js ''a --> b'') \<and> trim (js ''a --> b'') \<noteq> []
   \<and> splitLines (js ''a --> b'') = [js ''a --> b'']
   \<and> stripSrtTimecodes (js ''a --> b'') = []
   \<and> specSrtFilter (js ''a --> b'') = js ''a --> b''"
proof -
  have 1: "\<not> isCounter (js ''a --> b'')" "trim (js ''a --> b'') \<noteq> []"
    by (simp_all add: evals)
  have 2: "splitLines (js ''a --> b'') = [js ''a --> b'']" by (simp add: js_def)
  have 3: "stripSrtTimecodes (js ''a --> b'') = []"
    unfolding strip_eq 2 by (simp add: evals)
  have 4: "specSrtFilter (js ''a --> b'') = js ''a --> b''"
    unfolding specSrtFilter_def 2 using 1 not_hasSrtTimecodes_arrow by (simp add: specLineRemoved_def)
  from 1 2 3 4 not_hasSrtTimecodes_arrow show ?thesis by simp
qed

section \<open>The quote-extraction action\<close>

lemma generateOffered_iff:
  "generateOffered j \<longleftrightarrow>
     status j = TRANSLATED \<and> truthy (translation j) \<and> \<not> isGenerating j"
  by (auto simp: generateOffered_def bodyRendered_def statusGe_TRANSLATED)

lemma handleGenerateScript_guard:
  "\<not> truthy (translation j)
     \<Longrightarrow> \<not> generateOffered j \<and> handleGenerateScript generateScript j = (j, [])"
  by (simp add: generateOffered_iff handleGenerateScript_def)

text \<open>
  C3, as amended.  Take a job in the state Translated with translation \<open>T\<close> for which the
  timecode option is on when the quote extraction is invoked, and on which it can be
  invoked (its button is on the page and enabled).  The action applies the extraction
  operation to the filtered text \<open>stripSrtTimecodes T\<close> and to nothing else: what the
  operation returns for that text is stored as the quotes with the status Summarized, and
  what it throws for that text is stored as the error with the status unchanged.  The
  filtered text is made of the lines of \<open>T\<close> that are kept, none of which matches the
  timecode-range pattern, is a counter or is blank.
\<close>

theorem extract_passes_filtered:
  assumes "status j = TRANSLATED" and "addTimecodes j" and "translation j = Some T"
    and "generateOffered j"
  shows "snd (handleGenerateScript generateScript j) = [stripSrtTimecodes T]
       \<and> (\<forall>r. generateScript (stripSrtTimecodes T) = Inr r \<longrightarrow>
             script (fst (handleGenerateScript generateScript j)) = Some r
             \<and> status (fst (handleGenerateScript generateScript j)) = SUMMARIZED
             \<and> translation (fst (handleGenerateScript generateScript j)) = Some T)
       \<and> (\<forall>e. generateScript (stripSrtTimecodes T) = Inl e \<longrightarrow>
             error (fst (handleGenerateScript generateScript j))
               = Some (messageOf e (js ''Script generation failed.''))
             \<and> script (fst (handleGenerateScript generateScript j)) = script j
             \<and> status (fst (handleGenerateScript generateScript j)) = TRANSLATED)
       \<and> stripSrtTimecodes T = joinWith [LF] (filter keepLine (splitLines T))
       \<and> (\<forall>l\<in>set (filter keepLine (splitLines T)).
             \<not> hasSrtTimecodes l \<and> \<not> isTimecode l \<and> \<not> isCounter l \<and> trim l \<noteq> [])"
proof -
  from assms have ne: "truthy (translation j)"
    by (simp add: generateOffered_iff)
  have run: "handleGenerateScript generateScript j =
      (case generateScript (stripSrtTimecodes T) of
         Inr result \<Rightarrow>
           (j\<lparr>isGenerating := True, error := None, script := Some result, status := SUMMARIZED,
               isGenerating := False\<rparr>,
            [stripSrtTimecodes T])
       | Inl e \<Rightarrow>
           (j\<lparr>isGenerating := True, error := None,
               error := Some (messageOf e (js ''Script generation failed.'')),
               isGenerating := False\<rparr>,
            [stripSrtTimecodes T]))"
    using ne assms(2,3) by (auto simp: handleGenerateScript_def Let_def split: sum.splits)
  have 1: "snd (handleGenerateScript generateScript j) = [stripSrtTimecodes T]"
    unfolding run by (simp split: sum.splits)
  have 2: "\<forall>r. generateScript (stripSrtTimecodes T) = Inr r \<longrightarrow>
             script (fst (handleGenerateScript generateScript j)) = Some r
             \<and> status (fst (handleGenerateScript generateScript j)) = SUMMARIZED
             \<and> translation (fst (handleGenerateScript generateScript j)) = Some T"
    unfolding run using assms(3) by simp
  have 3: "\<forall>e. generateScript (stripSrtTimecodes T) = Inl e \<longrightarrow>
             error (fst (handleGenerateScript generateScript j))
               = Some (messageOf e (js ''Script generation failed.''))
             \<and> script (fst (handleGenerateScript generateScript j)) = script j
             \<and> status (fst (handleGenerateScript generateScript j)) = TRANSLATED"
    unfolding run using assms(1) by simp
  have 4: "\<forall>l\<in>set (filter keepLine (splitLines T)).
             \<not> hasSrtTimecodes l \<and> \<not> isTimecode l \<and> \<not> isCounter l \<and> trim l \<noteq> []"
    using hasSrtTimecodes_isTimecode by (auto simp: keepLine_def)
  from 1 2 3 4 show ?thesis by (simp add: strip_eq)
qed

theorem extract_passes_filtered_witness:
  "status translatedJob = TRANSLATED \<and> addTimecodes translatedJob
   \<and> translation translatedJob
       = Some (js ''1'' @ [LF] @ js ''00:00:01,234 --> 00:00:05,678'' @ [LF] @ js ''Hola'')
   \<and> generateOffered translatedJob
   \<and> snd (handleGenerateScript (\<lambda>t. if t = js ''Hola'' then Inr labelledQuotes else Inl NonError)
            translatedJob) = [js ''Hola'']
   \<and> script (fst (handleGenerateScript
                     (\<lambda>t. if t = js ''Hola'' then Inr labelledQuotes else Inl NonError)
                     translatedJob)) = Some labelledQuotes
   \<and> status (fst (handleGenerateScript
                     (\<lambda>t. if t = js ''Hola'' then Inr labelledQuotes else Inl NonError)
                     translatedJob)) = SUMMARIZED"
proof -
  let ?g = "\<lambda>t. if t = js ''Hola'' then Inr labelledQuotes else Inl NonError"
  have h: "status translatedJob = TRANSLATED" "addTimecodes translatedJob"
    "translation translatedJob
       = Some (js ''1'' @ [LF] @ js ''00:00:01,234 --> 00:00:05,678'' @ [LF] @ js ''Hola'')"
    "generateOffered translatedJob"
    by (simp_all add: translatedJob_def completedJob_def initialState_def generateOffered_iff js_def)
  have s: "stripSrtTimecodes (js ''1'' @ [LF] @ js ''00:00:01,234 --> 00:00:05,678'' @ [LF] @ js ''Hola'')
     = js ''Hola''"
    by (simp add: stripSrtTimecodes_def evals)
  note t = extract_passes_filtered [OF h, of ?g, unfolded s]
  from t have "snd (handleGenerateScript ?g translatedJob) = [js ''Hola'']"
    by (rule conjunct1)
  moreover from t have "script (fst (handleGenerateScript ?g translatedJob)) = Some labelledQuotes
      \<and> status (fst (handleGenerateScript ?g translatedJob)) = SUMMARIZED"
    by simp
  ultimately show ?thesis using h by simp
qed

text \<open>
  C3 as stated fails: the option is read when the action runs, not when the job is
  created.  A job created with the option on, whose toggle is switched off before its
  translation, passes the translation as it is, blank line included.
\<close>

theorem extract_after_toggle_counterexample:
  "addTimecodes (initialState sampleFile True spanish)
   \<and> status toggledJob = TRANSLATED
   \<and> translation toggledJob = Some paragraphs
   \<and> generateOffered toggledJob
   \<and> \<not> addTimecodes toggledJob
   \<and> snd (handleGenerateScript (\<lambda>t. Inr labelledQuotes) toggledJob) = [paragraphs]
   \<and> stripSrtTimecodes paragraphs = js ''Hola'' @ [LF] @ js ''Adios''
   \<and> snd (handleGenerateScript (\<lambda>t. Inr labelledQuotes) toggledJob) \<noteq> [stripSrtTimecodes paragraphs]"
proof -
  have j: "toggledJob =
     (initialState sampleFile True spanish)
       \<lparr>addTimecodes := False, status := TRANSLATED, transcript := Some (js ''Speaker 1: Hi''),
        translation := Some paragraphs\<rparr>"
    by (simp add: toggledJob_def mountJob_def changeAddTimecodes_def processTranscription_def
          sampleTranscribe_def sampleTranslate_def handleTranslate_def initialState_def js_def)
  have p: "paragraphs \<noteq> []" by (simp add: paragraphs_def js_def)
  have sl: "splitLines paragraphs = [js ''Hola'', [], js ''Adios'']"
    by (simp add: paragraphs_def js_def)
  have s: "stripSrtTimecodes paragraphs = js ''Hola'' @ [LF] @ js ''Adios''"
    unfolding strip_eq sl by (simp add: evals)
  have c: "snd (handleGenerateScript (\<lambda>t. Inr labelledQuotes) toggledJob) = [paragraphs]"
    unfolding j using p by (simp add: handleGenerateScript_def initialState_def)
  have g: "generateOffered toggledJob"
    unfolding j using p by (simp add: generateOffered_iff initialState_def)
  have n: "paragraphs \<noteq> js ''Hola'' @ [LF] @ js ''Adios''"
    by (simp add: paragraphs_def js_def)
  have f: "status toggledJob = TRANSLATED" "translation toggledJob = Some paragraphs"
    "\<not> addTimecodes toggledJob"
    unfolding j by (simp_all add: initialState_def)
  have i: "addTimecodes (initialState sampleFile True spanish)"
    by (simp add: initialState_def)
  from f i s c g n show ?thesis by simp
qed

section \<open>Filtering twice\<close>

text \<open>
  C5, as amended.  Filtering a second time changes nothing exactly when no retained line
  other than the last one ends in a carriage return; this covers every text whose lines
  end in LF or in CR LF.
\<close>

theorem strip_idempotent_iff:
  "stripSrtTimecodes (stripSrtTimecodes s) = stripSrtTimecodes s
   \<longleftrightarrow> (\<forall>l\<in>set (butlast (filter keepLine (splitLines s))). last l \<noteq> CR)"
proof (cases "filter keepLine (splitLines s) = []")
  case True
  then have "stripSrtTimecodes s = []" by (simp add: strip_eq)
  with True show ?thesis by (simp add: stripSrtTimecodes_def)
next
  case False
  define ls where "ls = filter keepLine (splitLines s)"
  with False have ne: "ls \<noteq> []" by simp
  have twice: "stripSrtTimecodes (stripSrtTimecodes s) = joinWith [LF] (map chopCR (butlast ls) @ [last ls])"
    using strip_twice [OF ls_def [symmetric] ne] .
  have once: "stripSrtTimecodes s = joinWith [LF] (butlast ls @ [last ls])"
    using ne by (simp add: strip_eq ls_def)
  show ?thesis
  proof
    assume "\<forall>l\<in>set (butlast (filter keepLine (splitLines s))). last l \<noteq> CR"
    then have "map chopCR (butlast ls) = butlast ls"
      by (intro chop_id) (simp add: ls_def)
    with twice once show "stripSrtTimecodes (stripSrtTimecodes s) = stripSrtTimecodes s" by simp
  next
    assume eq: "stripSrtTimecodes (stripSrtTimecodes s) = stripSrtTimecodes s"
    show "\<forall>l\<in>set (butlast (filter keepLine (splitLines s))). last l \<noteq> CR"
    proof (rule ccontr)
      assume "\<not> ?thesis"
      then obtain l where l: "l \<in> set (butlast ls)" "last l = CR" by (auto simp: ls_def)
      then have "l \<in> set ls" by (auto dest: in_set_butlastD)
      then have "keepLine l" by (simp add: ls_def)
      then have "l \<noteq> []" by (rule keepLine_not_Nil)
      with l have lt: "sum_list (map length (map chopCR (butlast ls))) < sum_list (map length (butlast ls))"
        by (intro sum_length_chop_less)
      have "length (joinWith [LF] (map chopCR (butlast ls) @ [last ls])) + length [LF]
          = sum_list (map length (map chopCR (butlast ls) @ [last ls]))
            + length (map chopCR (butlast ls) @ [last ls]) * length [LF]"
        by (intro length_joinWith) simp
      moreover have "length (joinWith [LF] (butlast ls @ [last ls])) + length [LF]
          = sum_list (map length (butlast ls @ [last ls]))
            + length (butlast ls @ [last ls]) * length [LF]"
        by (intro length_joinWith) simp
      ultimately have "length (joinWith [LF] (map chopCR (butlast ls) @ [last ls]))
          < length (joinWith [LF] (butlast ls @ [last ls]))"
        using lt by simp
      with eq twice once show False by simp
    qed
  qed
qed

theorem strip_idempotent_witness:
  "filter keepLine (splitLines srtSample) = [js ''Speaker 1: Hi'', js ''Speaker 2: Bye'']
   \<and> stripSrtTimecodes (stripSrtTimecodes srtSample) = stripSrtTimecodes srtSample"
proof -
  have "\<forall>l\<in>set (butlast (filter keepLine (splitLines srtSample))). last l \<noteq> CR"
    unfolding kept_srtSample by (simp add: js_def)
  with strip_idempotent_iff [of srtSample]
  have "stripSrtTimecodes (stripSrtTimecodes srtSample) = stripSrtTimecodes srtSample"
    by blast
  with kept_srtSample show ?thesis by simp
qed

text \<open>
  C5 as stated fails: in \<^verbatim>\<open>a\r\r\nb\<close> the first line is \<^verbatim>\<open>a\r\<close>, so the filtered text
  is \<^verbatim>\<open>a\r\nb\<close>, and filtering it again gives \<^verbatim>\<open>a\nb\<close>.
\<close>

theorem strip_not_idempotent_counterexample:
  "stripSrtTimecodes crSample = js ''a'' @ [CR, LF] @ js ''b''
   \<and> stripSrtTimecodes (stripSrtTimecodes crSample) = js ''a'' @ [LF] @ js ''b''
   \<and> stripSrtTimecodes (stripSrtTimecodes crSample) \<noteq> stripSrtTimecodes crSample"
proof -
  have 1: "splitLines crSample = [js ''a'' @ [CR], js ''b'']"
    by (simp add: crSample_def js_def)
  have 2: "stripSrtTimecodes crSample = js ''a'' @ [CR, LF] @ js ''b''"
    unfolding strip_eq 1 by (simp add: evals)
  have 3: "splitLines (js ''a'' @ [CR, LF] @ js ''b'') = [js ''a'', js ''b'']"
    by (simp add: js_def)
  have 4: "stripSrtTimecodes (js ''a'' @ [CR, LF] @ js ''b'') = js ''a'' @ [LF] @ js ''b''"
    unfolding strip_eq 3 by (simp add: evals)
  from 2 4 show ?thesis by (simp add: js_def)
qed

text \<open>
  In particular the filter is idempotent on every text whose carriage returns all stand
  directly before an LF, as in a text with LF or CR LF line breaks.
\<close>

lemma crBeforeLF_lines: "crBeforeLF s \<Longrightarrow> l \<in> set (splitLines s) \<Longrightarrow> CR \<notin> set l"
proof (induction s arbitrary: l rule: splitLines.induct)
  case 1
  then show ?case by simp
next
  case (2 c cs)
  from 2(4) have cs: "crBeforeLF cs" by simp
  show ?case
  proof (cases "c = LF")
    case True
    with 2(1) [OF True cs] 2(5) show ?thesis by auto
  next
    case nl: False
    show ?thesis
    proof (cases "c = CR \<and> cs \<noteq> [] \<and> hd cs = LF")
      case True
      then have "crBeforeLF (tl cs)" using cs by (cases cs) auto
      with 2(2) [OF nl True] 2(5) True nl show ?thesis by auto
    next
      case False
      with 2(4) have ncr: "c \<noteq> CR" by auto
      obtain x xs where sp: "splitLines cs = x # xs" by (cases "splitLines cs") auto
      with False nl 2(5) have "l = c # x \<or> l \<in> set xs" by auto
      moreover have "CR \<notin> set x" "\<And>y. y \<in> set xs \<Longrightarrow> CR \<notin> set y"
        using 2(3) [OF nl False cs] sp by auto
      ultimately show ?thesis using ncr by auto
    qed
  qed
qed

lemma strip_idempotent_crlf:
  assumes "crBeforeLF s"
  shows "stripSrtTimecodes (stripSrtTimecodes s) = stripSrtTimecodes s"
proof (cases "filter keepLine (splitLines s) = []")
  case True
  then have "stripSrtTimecodes s = []" by (simp add: strip_eq)
  then show ?thesis by (simp add: stripSrtTimecodes_def)
next
  case False
  define ls where "ls = filter keepLine (splitLines s)"
  with False have ne: "ls \<noteq> []" by simp
  have "\<forall>l\<in>set (butlast ls). l \<noteq> [] \<longrightarrow> last l \<noteq> CR"
  proof (intro ballI impI)
    fix l assume "l \<in> set (butlast ls)" "l \<noteq> []"
    then have "l \<in> set (splitLines s)" by (auto simp: ls_def dest: in_set_butlastD)
    with assms have "CR \<notin> set l" by (rule crBeforeLF_lines)
    with \<open>l \<noteq> []\<close> show "last l \<noteq> CR" by (metis last_in_set)
  qed
  then have "map chopCR (butlast ls) = butlast ls" by (rule chop_id)
  with strip_twice [OF ls_def [symmetric] ne] ne show ?thesis
    by (simp add: strip_eq ls_def)
qed

section \<open>The choice of the translation template\<close>

text \<open>A match of the timecode-range expression in a line is a match in the text.\<close>

lemma matchDigits_append:
  "matchDigits n s = Some r \<Longrightarrow> matchDigits n (s @ x) = Some (r @ x)"
  by (induction n s rule: matchDigits.induct) (auto split: if_splits)

lemma matchChar_append:
  "matchChar ch s = Some r \<Longrightarrow> matchChar ch (s @ x) = Some (r @ x)"
  by (cases s) (auto split: if_splits)

lemma matchTimestamp_append:
  assumes "matchTimestamp s = Some r"
  shows "matchTimestamp (s @ x) = Some (r @ x)"
proof -
  from assms obtain s1 s2 s3 s4 s5 s6 where
    m: "matchDigits 2 s = Some s1" "matchChar 58 s1 = Some s2" "matchDigits 2 s2 = Some s3"
       "matchChar 58 s3 = Some s4" "matchDigits 2 s4 = Some s5" "matchChar 44 s5 = Some s6"
       "matchDigits 3 s6 = Some r"
    unfolding matchTimestamp_def bind_eq_Some_conv by blast
  note a = m(1,3,5,7) [THEN matchDigits_append, of x] m(2,4,6) [THEN matchChar_append, of x]
  show ?thesis unfolding matchTimestamp_def by (simp add: a)
qed

lemma spacesThen_base: "k s \<Longrightarrow> spacesThen k s"
  by (cases s) simp_all

lemma spacesThen_append:
  assumes "spacesThen k s" and "\<And>r. k r \<Longrightarrow> k' (r @ x)"
  shows "spacesThen k' (s @ x)"
  using assms(1)
proof (induction s)
  case Nil
  then have "k' x" using assms(2) [of "[]"] by simp
  then show ?case by (simp add: spacesThen_base)
next
  case (Cons c cs)
  from Cons.prems consider "isWhiteSpace c \<and> spacesThen k cs" | "k (c # cs)" by auto
  then show ?case
  proof cases
    case 1
    with Cons.IH show ?thesis by simp
  next
    case 2
    then have "k' ((c # cs) @ x)" by (rule assms(2))
    then show ?thesis by simp
  qed
qed

lemma matchArrow_append:
  "matchArrow s = Some r \<Longrightarrow> matchArrow (s @ x) = Some (r @ x)"
  by (auto simp: matchArrow_def startsWith_iff js_def split: if_splits)

lemma matchTimecodeRange_append:
  assumes "matchTimecodeRange s"
  shows "matchTimecodeRange (s @ x)"
proof -
  let ?inner = "\<lambda>r3. matchTimestamp r3 \<noteq> None"
  let ?outer = "\<lambda>r1. case matchArrow r1 of None \<Rightarrow> False | Some r2 \<Rightarrow> spacesThen ?inner r2"
  from assms obtain r where r: "matchTimestamp s = Some r" and sp: "spacesThen ?outer r"
    by (auto simp: matchTimecodeRange_def split: option.splits)
  have inner: "\<And>r3. ?inner r3 \<Longrightarrow> ?inner (r3 @ x)"
    by (auto dest: matchTimestamp_append)
  have outer: "\<And>r1. ?outer r1 \<Longrightarrow> ?outer (r1 @ x)"
  proof -
    fix r1 assume "?outer r1"
    then obtain r2 where a: "matchArrow r1 = Some r2" and s2: "spacesThen ?inner r2"
      by (auto split: option.splits)
    from s2 inner have "spacesThen ?inner (r2 @ x)" by (rule spacesThen_append)
    with matchArrow_append [OF a, of x] show "?outer (r1 @ x)" by simp
  qed
  from sp outer have "spacesThen ?outer (r @ x)" by (rule spacesThen_append)
  with matchTimestamp_append [OF r, of x] show ?thesis
    by (simp add: matchTimecodeRange_def)
qed

lemma testAnywhere_prepend: "testAnywhere m s \<Longrightarrow> testAnywhere m (a @ s)"
proof (induction a)
  case Nil
  then show ?case by simp
next
  case (Cons c a)
  then show ?case by simp
qed

lemma testAnywhere_append:
  assumes "testAnywhere m s" and "\<And>r. m r \<Longrightarrow> m (r @ x)"
  shows "testAnywhere m (s @ x)"
  using assms(1)
proof (induction s)
  case Nil
  then have "m ([] @ x)" using assms(2) [of "[]"] by simp
  then show ?case by (cases x) simp_all
next
  case (Cons c cs)
  from Cons.prems consider "m (c # cs)" | "testAnywhere m cs" by auto
  then show ?case
  proof cases
    case 1
    then have "m ((c # cs) @ x)" by (rule assms(2))
    then show ?thesis by simp
  next
    case 2
    with Cons.IH show ?thesis by simp
  qed
qed

lemma hasSrtTimecodes_within:
  "hasSrtTimecodes s \<Longrightarrow> hasSrtTimecodes (a @ s @ b)"
  unfolding hasSrtTimecodes_def
  by (intro testAnywhere_prepend testAnywhere_append matchTimecodeRange_append)

lemma first_line_prefix: "\<exists>b. s = hd (splitLines s) @ b"
proof (induction s rule: splitLines.induct)
  case 1
  then show ?case by simp
next
  case (2 c cs)
  show ?case
  proof (cases "c = LF \<or> (c = CR \<and> cs \<noteq> [] \<and> hd cs = LF)")
    case True
    then have "hd (splitLines (c # cs)) = []" by auto
    then show ?thesis by simp
  next
    case False
    then have nl: "c \<noteq> LF" and ncr: "\<not> (c = CR \<and> cs \<noteq> [] \<and> hd cs = LF)" by auto
    obtain x xs where sp: "splitLines cs = x # xs" by (cases "splitLines cs") auto
    from "2.IH"(3) [OF nl ncr] sp obtain b where "cs = x @ b" by auto
    moreover from sp nl ncr have "hd (splitLines (c # cs)) = c # x" by auto
    ultimately have "c # cs = hd (splitLines (c # cs)) @ b" by simp
    then show ?thesis by (intro exI)
  qed
qed

lemma line_within_text: "l \<in> set (splitLines s) \<Longrightarrow> \<exists>a b. s = a @ l @ b"
proof (induction s arbitrary: l rule: splitLines.induct)
  case 1
  then have "[] = [] @ l @ []" by simp
  then show ?case by (intro exI)
next
  case (2 c cs)
  show ?case
  proof (cases "c = LF")
    case True
    with 2(4) consider "l = []" | "l \<in> set (splitLines cs)" by auto
    then show ?thesis
    proof cases
      case 1
      then have "c # cs = [] @ l @ (c # cs)" by simp
      then show ?thesis by (intro exI)
    next
      case 2
      with "2.IH"(1) [OF True] obtain a b where "cs = a @ l @ b" by blast
      then have "c # cs = (c # a) @ l @ b" by simp
      then show ?thesis by (intro exI)
    qed
  next
    case nl: False
    show ?thesis
    proof (cases "c = CR \<and> cs \<noteq> [] \<and> hd cs = LF")
      case True
      with nl 2(4) consider "l = []" | "l \<in> set (splitLines (tl cs))" by auto
      then show ?thesis
      proof cases
        case 1
        then have "c # cs = [] @ l @ (c # cs)" by simp
        then show ?thesis by (intro exI)
      next
        case 2
        with "2.IH"(2) [OF nl True] obtain a b where "tl cs = a @ l @ b" by blast
        with True have "c # cs = (c # hd cs # a) @ l @ b"
          by (cases cs) auto
        then show ?thesis by (intro exI)
      qed
    next
      case False
      obtain x xs where sp: "splitLines cs = x # xs" by (cases "splitLines cs") auto
      with False nl 2(4) consider "l = c # x" | "l \<in> set xs" by auto
      then show ?thesis
      proof cases
        case 1
        from first_line_prefix [of cs] sp obtain b where "cs = x @ b" by auto
        with 1 have "c # cs = [] @ l @ b" by simp
        then show ?thesis by (intro exI)
      next
        case 2
        with "2.IH"(3) [OF nl False, of l] sp obtain a b where "cs = a @ l @ b" by auto
        then have "c # cs = (c # a) @ l @ b" by simp
        then show ?thesis by (intro exI)
      qed
    qed
  qed
qed


lemma timecode_line_in_text:
  assumes "list_ex hasSrtTimecodes (splitLines s)"
  shows "hasSrtTimecodes s"
proof -
  from assms obtain l where "l \<in> set (splitLines s)" "hasSrtTimecodes l"
    by (auto simp: list_ex_iff)
  moreover then obtain a b where "s = a @ l @ b" by (blast dest: line_within_text)
  ultimately show ?thesis by (simp add: hasSrtTimecodes_within)
qed

text \<open>
  C6, as amended.  The translation request takes the timecode-preserving template exactly
  when the timecode-range expression matches somewhere in the text.  Whenever it does, the
  text has a line that the filter removes as a timecode line; and whenever a line of the
  text matches the timecode-range pattern, the request takes that template.
\<close>

theorem preserve_prompt_choice:
  "(translatePrompt tx lang = preservePrompt lang tx \<longleftrightarrow> hasSrtTimecodes tx)
   \<and> (hasSrtTimecodes tx \<longrightarrow> specShouldPreserve tx)
   \<and> (list_ex hasSrtTimecodes (splitLines tx) \<longrightarrow> hasSrtTimecodes tx)"
proof (intro conjI)
  show "translatePrompt tx lang = preservePrompt lang tx \<longleftrightarrow> hasSrtTimecodes tx"
    using prompts_differ [of lang tx] by (auto simp: translatePrompt_def)
next
  show "hasSrtTimecodes tx \<longrightarrow> specShouldPreserve tx"
    unfolding specShouldPreserve_def
    by (blast intro: isTimecode_line hasSrtTimecodes_isTimecode)
next
  show "list_ex hasSrtTimecodes (splitLines tx) \<longrightarrow> hasSrtTimecodes tx"
    by (blast intro: timecode_line_in_text)
qed

theorem preserve_prompt_choice_witness:
  "hasSrtTimecodes srtSample
   \<and> translatePrompt srtSample (js ''Spanish'') = preservePrompt (js ''Spanish'') srtSample
   \<and> specShouldPreserve srtSample"
proof -
  have h: "hasSrtTimecodes srtSample"
    by (simp add: srtSample_def regex_evals)
  with preserve_prompt_choice [of srtSample "js ''Spanish''"] show ?thesis by blast
qed

text \<open>
  C6 as stated fails: the filter removes the line \<^verbatim>\<open>a --> b\<close> as a timecode line, and the
  translation request for this text takes the plain template.
\<close>

theorem preserve_prompt_counterexample:
  "specShouldPreserve (js ''a --> b'')
   \<and> translatePrompt (js ''a --> b'') (js ''Spanish'') = plainPrompt (js ''Spanish'') (js ''a --> b'')
   \<and> translatePrompt (js ''a --> b'') (js ''Spanish'') \<noteq> preservePrompt (js ''Spanish'') (js ''a --> b'')"
proof -
  have 1: "splitLines (js ''a --> b'') = [js ''a --> b'']" by (simp add: js_def)
  have 2: "specShouldPreserve (js ''a --> b'')"
    unfolding specShouldPreserve_def 1 by (simp add: evals)
  have 3: "translatePrompt (js ''a --> b'') (js ''Spanish'') = plainPrompt (js ''Spanish'') (js ''a --> b'')"
    using not_hasSrtTimecodes_arrow by (simp add: translatePrompt_def)
  from 2 3 prompts_differ [of "js ''Spanish''" "js ''a --> b''"] show ?thesis by simp
qed

section \<open>Quotes grouped by speaker\<close>

lemma set_firstAppearances [simp]: "set (firstAppearances xs) = set xs"
  by (induction xs) auto

lemma distinct_firstAppearances [simp]: "distinct (firstAppearances xs)"
  by (induction xs) auto

lemma firstAppearances_snoc:
  "firstAppearances (xs @ [x]) = (if x \<in> set xs then firstAppearances xs else firstAppearances xs @ [x])"
  by (induction xs) auto

lemma map_of_keys:
  "map_of (map (\<lambda>k. (k, f k)) ks) k = (if k \<in> set ks then Some (f k) else None)"
  by (induction ks) auto

lemma updateProp_keys:
  "distinct ks \<Longrightarrow> k \<in> set ks \<Longrightarrow>
     updateProp k v (map (\<lambda>s. (s, f s)) ks) = map (\<lambda>s. (s, if s = k then v else f s)) ks"
  by (induction ks) auto

lemma pushQuote_specGroups:
  assumes "speaker q \<notin> set inheritedKeys"
  shows "pushQuote (specGroups pre) q = Inr (specGroups (pre @ [q]))"
proof (cases "speaker q \<in> set (map speaker pre)")
  case True
  then have look: "map_of (specGroups pre) (speaker q) = Some (filter (\<lambda>p. speaker p = speaker q) pre)"
    by (simp add: specGroups_def map_of_keys)
  have "updateProp (speaker q) (filter (\<lambda>p. speaker p = speaker q) pre @ [q]) (specGroups pre)
      = map (\<lambda>s. (s, if s = speaker q then filter (\<lambda>p. speaker p = speaker q) pre @ [q]
                       else filter (\<lambda>p. speaker p = s) pre))
          (firstAppearances (map speaker pre))"
    unfolding specGroups_def using True by (intro updateProp_keys) simp_all
  also have "\<dots> = specGroups (pre @ [q])"
    using True by (auto simp: specGroups_def firstAppearances_snoc)
  finally show ?thesis using look by (simp add: pushQuote_def)
next
  case False
  then have look: "map_of (specGroups pre) (speaker q) = None"
    by (simp add: specGroups_def map_of_keys)
  have "specGroups (pre @ [q]) = specGroups pre @ [(speaker q, [q])]"
    using False by (auto simp: specGroups_def firstAppearances_snoc filter_empty_conv image_iff)
  with look assms show ?thesis by (simp add: pushQuote_def)
qed

lemma reduceQuotes_specGroups:
  assumes "\<forall>q\<in>set qs. speaker q \<notin> set inheritedKeys"
  shows "reduceQuotes (specGroups pre) qs = Inr (specGroups (pre @ qs))"
  using assms
proof (induction qs arbitrary: pre)
  case Nil
  then show ?case by simp
next
  case (Cons q qs)
  then have "pushQuote (specGroups pre) q = Inr (specGroups (pre @ [q]))"
    by (simp add: pushQuote_specGroups)
  moreover from Cons have "reduceQuotes (specGroups (pre @ [q])) qs = Inr (specGroups ((pre @ [q]) @ qs))"
    by simp
  ultimately show ?case by simp
qed

lemma objectEntries_no_index:
  "\<forall>kv\<in>set obj. \<not> isArrayIndex (fst kv) \<Longrightarrow> objectEntries obj = obj"
  by (simp add: objectEntries_def filter_empty_conv[THEN iffD2] filter_id_conv[THEN iffD2])

lemma specGroups_keys: "fst ` set (specGroups quotes) = speaker ` set quotes"
  by (force simp: specGroups_def)

text \<open>
  C7, as amended.  When no speaker is an array index or the name of a property inherited
  from \<^verbatim>\<open>Object.prototype\<close>, the Key Quotes section has one group for every speaker, the
  groups in the order in which the speakers first appear in the list, and in every group
  the quotes of that speaker in the order of the list.
\<close>

theorem groups_in_order_of_appearance:
  assumes "plainSpeakers quotes"
  shows "quotesBySpeaker quotes = Inr (specGroups quotes)
       \<and> objectEntries (specGroups quotes) = specGroups quotes
       \<and> quoteSections quotes = Inr (sectionOf (specGroups quotes))"
proof -
  from assms have inh: "\<forall>q\<in>set quotes. speaker q \<notin> set inheritedKeys"
    and idx: "\<forall>q\<in>set quotes. \<not> isArrayIndex (speaker q)"
    by (auto simp: plainSpeakers_def list_all_iff)
  have "specGroups [] = []" by (simp add: specGroups_def)
  with reduceQuotes_specGroups [OF inh, of "[]"]
  have 1: "quotesBySpeaker quotes = Inr (specGroups quotes)"
    by (simp add: quotesBySpeaker_def)
  have "\<forall>kv\<in>set (specGroups quotes). \<not> isArrayIndex (fst kv)"
    using idx specGroups_keys [of quotes] by (metis imageE imageI)
  then have 2: "objectEntries (specGroups quotes) = specGroups quotes"
    by (rule objectEntries_no_index)
  from 1 2 show ?thesis by (simp add: quoteSections_def)
qed

lemmas quote_evals = specGroups_def sectionOf_def js_def

theorem groups_in_order_of_appearance_witness:
  "plainSpeakers labelledQuotes
   \<and> quoteSections labelledQuotes
       = Inr [SpeakerParagraph (js ''Speaker B''),
              QuoteParagraph ([34] @ js ''We begin.'' @ [34]),
              QuoteParagraph ([34] @ js ''Welcome.'' @ [34]),
              SpeakerParagraph (js ''Speaker A''),
              QuoteParagraph ([34] @ js ''Thank you.'' @ [34])]"
proof -
  have p: "plainSpeakers labelledQuotes"
    by (simp add: plainSpeakers_def labelledQuotes_def isArrayIndex_def isDigit_def
          inheritedKeys_def js_def)
  have "sectionOf (specGroups labelledQuotes)
       = [SpeakerParagraph (js ''Speaker B''),
              QuoteParagraph ([34] @ js ''We begin.'' @ [34]),
              QuoteParagraph ([34] @ js ''Welcome.'' @ [34]),
              SpeakerParagraph (js ''Speaker A''),
              QuoteParagraph ([34] @ js ''Thank you.'' @ [34])]"
    by (simp add: labelledQuotes_def quote_evals)
  with groups_in_order_of_appearance [OF p] p show ?thesis by simp
qed

text \<open>
  C7 as stated fails: with the speakers \<^verbatim>\<open>2\<close>, \<^verbatim>\<open>1\<close>, \<^verbatim>\<open>2\<close> the object lists the key
  \<^verbatim>\<open>1\<close> before the key \<^verbatim>\<open>2\<close>, so the group of the speaker who appears second comes first.
\<close>

lemma quotesBySpeaker_numbered:
  "quotesBySpeaker numberedQuotes
     = Inr [(js ''2'', [\<lparr>speaker = js ''2'', quote = js ''We begin.''\<rparr>,
                        \<lparr>speaker = js ''2'', quote = js ''Welcome.''\<rparr>]),
            (js ''1'', [\<lparr>speaker = js ''1'', quote = js ''Thank you.''\<rparr>])]"
  by (simp add: quotesBySpeaker_def numberedQuotes_def pushQuote_def inheritedKeys_def js_def)

lemma isArrayIndex_numbered: "isArrayIndex (js ''1'')" "isArrayIndex (js ''2'')"
  by (simp_all add: isArrayIndex_def isDigit_def digitsValue_def js_def)

theorem numbered_speakers_counterexample:
  "quoteSections numberedQuotes
     = Inr [SpeakerParagraph (js ''1''),
            QuoteParagraph ([34] @ js ''Thank you.'' @ [34]),
            SpeakerParagraph (js ''2''),
            QuoteParagraph ([34] @ js ''We begin.'' @ [34]),
            QuoteParagraph ([34] @ js ''Welcome.'' @ [34])]
   \<and> firstAppearances (map speaker numberedQuotes) = [js ''2'', js ''1'']
   \<and> quoteSections numberedQuotes \<noteq> Inr (sectionOf (specGroups numberedQuotes))"
proof -
  have v: "digitsValue (js ''1'') = 1" "digitsValue (js ''2'') = 2"
    by (simp_all add: digitsValue_def js_def)
  have 1: "quoteSections numberedQuotes
     = Inr [SpeakerParagraph (js ''1''),
            QuoteParagraph ([34] @ js ''Thank you.'' @ [34]),
            SpeakerParagraph (js ''2''),
            QuoteParagraph ([34] @ js ''We begin.'' @ [34]),
            QuoteParagraph ([34] @ js ''Welcome.'' @ [34])]"
    unfolding quoteSections_def quotesBySpeaker_numbered objectEntries_def
    using isArrayIndex_numbered v by (simp add: sectionOf_def)
  have 2: "firstAppearances (map speaker numberedQuotes) = [js ''2'', js ''1'']"
    by (simp add: numberedQuotes_def js_def)
  have 3: "sectionOf (specGroups numberedQuotes)
     = [SpeakerParagraph (js ''2''),
            QuoteParagraph ([34] @ js ''We begin.'' @ [34]),
            QuoteParagraph ([34] @ js ''Welcome.'' @ [34]),
            SpeakerParagraph (js ''1''),
            QuoteParagraph ([34] @ js ''Thank you.'' @ [34])]"
    by (simp add: numberedQuotes_def quote_evals)
  from 1 2 3 show ?thesis by (simp add: js_def)
qed

text \<open>A speaker named like an inherited property makes the grouping throw.\<close>

lemma inherited_speaker_throws:
  "quotesBySpeaker [\<lparr>speaker = js ''constructor'', quote = js ''We begin.''\<rparr>] = Inl TypeError"
  by (simp add: quotesBySpeaker_def pushQuote_def inheritedKeys_def js_def)

section \<open>The name of the document\<close>

lemma splitOn_no_sep: "sep \<notin> set s \<Longrightarrow> splitOn sep s = [s]"
  by (induction s) auto

lemma splitOn_not_Nil [simp]: "splitOn sep s \<noteq> []"
  by (induction s) (auto split: list.splits)

lemma splitOn_last_part:
  "sep \<notin> set b \<Longrightarrow> splitOn sep (a @ sep # b) = splitOn sep a @ [b]"
proof (induction a)
  case Nil
  then show ?case by (simp add: splitOn_no_sep)
next
  case (Cons c a)
  then show ?case by (cases "splitOn sep a") auto
qed

lemma joinWith_head: "joinWith sep ((c # l) # ls) = c # joinWith sep (l # ls)"
  by (cases ls) simp_all

lemma joinWith_splitOn: "joinWith [sep] (splitOn sep s) = s"
proof (induction s)
  case Nil
  then show ?case by simp
next
  case (Cons c s)
  obtain l ls where sp: "splitOn sep s = l # ls" by (cases "splitOn sep s") auto
  with Cons show ?case by (auto simp: joinWith_head)
qed

lemma lastIndexOf_last_dot:
  "ch \<notin> set b \<Longrightarrow> lastIndexOf ch (a @ ch # b) = Some (length a)"
proof (induction a)
  case Nil
  have "ch \<notin> set b \<Longrightarrow> lastIndexOf ch b = None" by (induction b) auto
  with Nil show ?case by simp
next
  case (Cons c a)
  then show ?case by simp
qed

lemma formatFileName_with_extension:
  assumes "46 \<notin> set ext"
  shows "formatFileName (base @ [46] @ ext) = base @ js ''_processed.docx''"
    and "specOutputName (base @ [46] @ ext) = base @ js ''_processed.docx''"
  using assms
  by (simp_all add: formatFileName_def specOutputName_def splitOn_last_part joinWith_splitOn
        lastIndexOf_last_dot)

text \<open>
  C8.  For a name without a dot \<^verbatim>\<open>pop()\<close> removes the only part, which is the whole name:
  \<^verbatim>\<open>interview\<close> gives \<^verbatim>\<open>_processed.docx\<close>, where the replacement of the extension gives
  \<^verbatim>\<open>interview_processed.docx\<close> and the base name of the SRT download keeps \<^verbatim>\<open>interview\<close>.
\<close>

theorem formatFileName_without_dot:
  "formatFileName (js ''interview'') = js ''_processed.docx''
   \<and> specOutputName (js ''interview'') = js ''interview_processed.docx''
   \<and> srtBaseName (js ''interview'') = js ''interview''
   \<and> formatFileName (js ''interview.mp3'') = js ''interview_processed.docx''"
proof -
  have 1: "splitOn 46 (js ''interview'') = [js ''interview'']"
    by (rule splitOn_no_sep) (simp add: js_def)
  have 2: "splitOn 46 (js ''interview.mp3'') = [js ''interview'', js ''mp3'']"
    by (simp add: js_def)
  have 3: "lastIndexOf 46 (js ''interview'') = None"
    by (simp add: js_def)
  show ?thesis
    unfolding formatFileName_def specOutputName_def srtBaseName_def 1 2 3
    by (simp add: js_def)
qed

section \<open>Selecting files\<close>

lemma handleFilesSelected_eq:
  "handleFilesSelected files selectedFiles
     = files @ filter (\<lambda>sf. fileKey sf \<notin> set (map fileKey files)) selectedFiles"
proof -
  have same: "\<And>ef sf. sameFile ef sf \<longleftrightarrow> fileKey sf = fileKey ef"
    by (auto simp: sameFile_def fileKey_def)
  have "\<And>sf. list_ex (\<lambda>ef. sameFile ef sf) files \<longleftrightarrow> fileKey sf \<in> set (map fileKey files)"
    unfolding list_ex_iff same by (simp add: image_iff)
  then show ?thesis by (simp add: handleFilesSelected_def)
qed

lemma handleFilesSelected_distinct:
  assumes "distinct (map fileKey files)" and "distinct (map fileKey selectedFiles)"
  shows "distinct (map fileKey (handleFilesSelected files selectedFiles))"
  using assms by (auto simp: handleFilesSelected_eq distinct_map_filter)

lemma foldl_selections_distinct:
  assumes "\<forall>sel\<in>set selections. distinct (map fileKey sel)" and "distinct (map fileKey files)"
  shows "distinct (map fileKey (foldl handleFilesSelected files selections))"
  using assms
proof (induction selections arbitrary: files)
  case Nil
  then show ?case by simp
next
  case (Cons sel selections)
  then have "distinct (map fileKey (handleFilesSelected files sel))"
    by (simp add: handleFilesSelected_distinct)
  with Cons show ?case by simp
qed

text \<open>
  C9, as amended.  A selected file whose name, size and modification time are those of a
  file already in the queue is not added.  When no selection holds two files with the same
  three values, no two files of the queue have the same three values after any sequence
  of selections.
\<close>

theorem no_duplicate_jobs:
  "handleFilesSelected files selectedFiles
     = files @ filter (\<lambda>sf. fileKey sf \<notin> set (map fileKey files)) selectedFiles
   \<and> ((\<forall>sel\<in>set selections. distinct (map fileKey sel))
        \<longrightarrow> distinct (map fileKey (selectAll selections)))"
  using handleFilesSelected_eq foldl_selections_distinct [of selections "[]"]
  by (simp add: selectAll_def)

theorem no_duplicate_jobs_witness:
  "distinct (map fileKey [sampleFile, unnamedFile])
   \<and> selectAll [[sampleFile], [sampleFile, unnamedFile]] = [sampleFile, unnamedFile]
   \<and> distinct (map fileKey (selectAll [[sampleFile], [sampleFile, unnamedFile]]))"
proof -
  have d: "\<forall>sel\<in>set [[sampleFile], [sampleFile, unnamedFile]]. distinct (map fileKey sel)"
    by (simp add: fileKey_def sampleFile_def unnamedFile_def js_def)
  with no_duplicate_jobs [of "[]" "[]" "[[sampleFile], [sampleFile, unnamedFile]]"]
  have "distinct (map fileKey (selectAll [[sampleFile], [sampleFile, unnamedFile]]))"
    by blast
  moreover have "selectAll [[sampleFile], [sampleFile, unnamedFile]] = [sampleFile, unnamedFile]"
    by (simp add: selectAll_def handleFilesSelected_def sameFile_def sampleFile_def unnamedFile_def js_def)
  ultimately show ?thesis using d by simp
qed

text \<open>
  C9 as stated fails: a selection that holds the same file twice puts it into the empty
  queue twice.
\<close>

theorem duplicate_in_one_selection_counterexample:
  "selectAll [[sampleFile, sampleFile]] = [sampleFile, sampleFile]
   \<and> \<not> distinct (map fileKey (selectAll [[sampleFile, sampleFile]]))"
  by (simp add: selectAll_def handleFilesSelected_def)

section \<open>The status comparison in the first state\<close>

text \<open>
  C10.  In the first state of a job the status is Pending and there is no transcript, and
  the comparison \<^verbatim>\<open>status >= TranscriptionStatus.COMPLETED\<close> holds: it compares the strings
  \<^verbatim>\<open>PENDING\<close> and \<^verbatim>\<open>COMPLETED\<close>.
\<close>

theorem status_comparison_initial:
  "statusGe (status (initialState sampleFile True spanish)) COMPLETED
   \<and> transcript (initialState sampleFile True spanish) = None
   \<and> status (initialState sampleFile True spanish) = PENDING"
  by (simp add: initialState_def statusGe_COMPLETED)

text \<open>
  The same comparison decides whether the error of a later stage is shown: after a failed
  translation of a completed job the status is still Completed, and the error is not shown.
\<close>

lemma failed_translation_error_hidden:
  "\<not> errorShown (fst (handleTranslate (\<lambda>t l. Inl (Error (js ''Failed to translate text.'')))
                        completedJob))"
  by (simp add: errorShown_def handleTranslate_def completedJob_def initialState_def
        statusGt_COMPLETED js_def)

end
